theory Spec2Isabelle
  imports Complex_Main "HOL-Library.Multiset"
begin

unbundle bit_operations_syntax

section \<open>JavaScript numbers and strings\<close>

text \<open>
  A JavaScript string is a list of code units. Addresses, ranges and the output of
  \<open>ping\<close> are text with code units below 256, of type \<open>string\<close>; the host header, which
  is tested unit by unit, is a list of numbers. A JavaScript number is a double: \<open>Num\<close> holds a double whose value is an
  integer, \<open>Frac\<close> any other finite double, given by its exact value; \<open>NegZero\<close> is the
  negative zero (\<open>Num 0\<close> is the positive one).
\<close>

datatype jsnum = Num int | Frac rat | NegZero | PosInf | NegInf | NaN

subsection \<open>Rounding to a double\<close>

definition pow2 :: "int \<Rightarrow> rat" where
  "pow2 e = (if 0 \<le> e then 2 ^ nat e else 1 / 2 ^ nat (- e))"

definition pow10 :: "int \<Rightarrow> rat" where
  "pow10 e = (if 0 \<le> e then 10 ^ nat e else 1 / 10 ^ nat (- e))"

text \<open>The number of binary digits of a positive integer.\<close>

function bit_length :: "int \<Rightarrow> int" where
  "bit_length n = (if n \<le> 0 then 0 else 1 + bit_length (n div 2))"
  by pat_completeness auto
termination
  by (relation "measure nat") auto

declare bit_length.simps [simp del]

text \<open>For a positive rational \<open>a\<close>: the \<open>e\<close> with \<open>2 ^ e \<le> a < 2 ^ (e + 1)\<close>. The difference of
  the bit lengths of numerator and denominator is \<open>e\<close> or \<open>e + 1\<close>.\<close>

definition floor_log2 :: "rat \<Rightarrow> int" where
  "floor_log2 a =
     (let d = bit_length (fst (quotient_of a)) - bit_length (snd (quotient_of a))
      in if pow2 d \<le> a then d else d - 1)"

definition round_half_even :: "rat \<Rightarrow> int" where
  "round_half_even x =
     (let f = \<lfloor>x\<rfloor>; d = x - of_int f
      in if d < 1 / 2 then f else if 1 / 2 < d then f + 1 else if even f then f else f + 1)"

text \<open>
  The double nearest to a rational, ties to the even significand: 53 significant bits,
  exponents from \<open>-1022\<close> (below that the spacing stays \<open>2 ^ -1074\<close>) to 1023 (beyond
  that the result is infinite). An integer of magnitude up to \<open>2 ^ 53\<close> is a double.
\<close>

definition round_double :: "rat \<Rightarrow> jsnum" where
  "round_double x =
     (if x = of_int \<lfloor>x\<rfloor> \<and> \<bar>x\<bar> \<le> 2 ^ 53 then Num \<lfloor>x\<rfloor>
      else
        (let a = \<bar>x\<bar>;
             e = max (floor_log2 a) (- 1022);
             ulp = pow2 (e - 52);
             r = of_int (round_half_even (a / ulp)) * ulp
         in if pow2 1024 \<le> r then (if 0 < x then PosInf else NegInf)
            else if r = 0 then (if 0 < x then Num 0 else NegZero)
            else if r = of_int \<lfloor>r\<rfloor> then Num (if 0 < x then \<lfloor>r\<rfloor> else - \<lfloor>r\<rfloor>)
            else Frac (if 0 < x then r else - r)))"

definition js_neg :: "jsnum \<Rightarrow> jsnum" where
  "js_neg x =
     (case x of
        Num n \<Rightarrow> if n = 0 then NegZero else Num (- n)
      | Frac r \<Rightarrow> Frac (- r)
      | NegZero \<Rightarrow> Num 0
      | PosInf \<Rightarrow> NegInf
      | NegInf \<Rightarrow> PosInf
      | NaN \<Rightarrow> NaN)"

subsection \<open>Integer coercions and operators\<close>

text \<open>\<open>ToInt32\<close> and \<open>ToUint32\<close> of the language: the value modulo \<open>2 ^ 32\<close>,
  read as signed or unsigned. A number is first cut to an integer towards zero; \<open>NaN\<close>
  and the infinities become 0.\<close>

definition ToInt32 :: "int \<Rightarrow> int" where
  "ToInt32 x = (x + 2 ^ 31) mod 2 ^ 32 - 2 ^ 31"

definition ToUint32 :: "int \<Rightarrow> int" where
  "ToUint32 x = x mod 2 ^ 32"

definition int_of_jsnum :: "jsnum \<Rightarrow> int" where
  "int_of_jsnum x =
     (case x of
        Num i \<Rightarrow> i
      | Frac r \<Rightarrow> if r < 0 then - \<lfloor>- r\<rfloor> else \<lfloor>r\<rfloor>
      | NegZero \<Rightarrow> 0
      | PosInf \<Rightarrow> 0
      | NegInf \<Rightarrow> 0
      | NaN \<Rightarrow> 0)"

text \<open>The operators \<open><<\<close>, \<open>>>>\<close>, \<open>>>\<close>, \<open>&\<close> and \<open>~\<close>: operands are coerced to
  32 bits, the shift count is taken modulo 32, and the result is signed except for
  \<open>>>>\<close>.\<close>

definition js_shl :: "int \<Rightarrow> nat \<Rightarrow> int" where
  "js_shl a n = ToInt32 (ToInt32 a * 2 ^ (n mod 32))"

definition js_ushr :: "int \<Rightarrow> nat \<Rightarrow> int" where
  "js_ushr a n = ToUint32 a div 2 ^ (n mod 32)"

definition js_sshr :: "int \<Rightarrow> nat \<Rightarrow> int" where
  "js_sshr a n = ToInt32 a div 2 ^ (n mod 32)"

definition js_and :: "int \<Rightarrow> int \<Rightarrow> int" where
  "js_and a b = ToInt32 a AND ToInt32 b"

definition js_not :: "int \<Rightarrow> int" where
  "js_not a = - ToInt32 a - 1"

text \<open>\<open>a + b\<close> on numbers: \<open>NaN\<close> is absorbing, opposite infinities give \<open>NaN\<close>, two
  negative zeros give the negative zero, and a finite sum is rounded.\<close>

definition rat_of_jsnum :: "jsnum \<Rightarrow> rat" where
  "rat_of_jsnum x = (case x of Num i \<Rightarrow> of_int i | Frac r \<Rightarrow> r | _ \<Rightarrow> 0)"

definition js_add :: "jsnum \<Rightarrow> jsnum \<Rightarrow> jsnum" where
  "js_add a b =
     (if a = NaN \<or> b = NaN then NaN
      else if a = PosInf then (if b = NegInf then NaN else PosInf)
      else if a = NegInf then (if b = PosInf then NaN else NegInf)
      else if b = PosInf then PosInf
      else if b = NegInf then NegInf
      else if a = NegZero \<and> b = NegZero then NegZero
      else round_double (rat_of_jsnum a + rat_of_jsnum b))"

subsection \<open>Characters and decimal text\<close>

definition is_ws :: "char \<Rightarrow> bool" where
  "is_ws c = ((of_char c :: nat) \<in> {9, 10, 11, 12, 13, 32, 160})"

definition is_digit :: "char \<Rightarrow> bool" where
  "is_digit c = (48 \<le> (of_char c :: nat) \<and> (of_char c :: nat) \<le> 57)"

definition digit_val :: "char \<Rightarrow> nat" where
  "digit_val c = of_char c - 48"

definition digits_val :: "string \<Rightarrow> nat" where
  "digits_val ds = foldl (\<lambda>a c. 10 * a + digit_val c) 0 ds"

definition digit_char :: "nat \<Rightarrow> char" where
  "digit_char n = char_of (48 + n)"

text \<open>\<open>String(n)\<close> for an integer: decimal digits, most significant first.\<close>

function show_nat :: "nat \<Rightarrow> string" where
  "show_nat n = (if n < 10 then [digit_char n] else show_nat (n div 10) @ [digit_char (n mod 10)])"
  by pat_completeness auto
termination
  by (relation "measure id") auto

declare show_nat.simps [simp del]

definition js_toString :: "int \<Rightarrow> string" where
  "js_toString i = (if i < 0 then CHR ''-'' # show_nat (nat (- i)) else show_nat (nat i))"

text \<open>\<open>s.split(c)\<close> for a one-character separator: never empty, \<open>''''\<close> gives \<open>['''']\<close>.\<close>

fun split_on :: "char \<Rightarrow> string \<Rightarrow> string list" where
  "split_on c [] = [[]]"
| "split_on c (x # xs) =
     (if x = c then [] # split_on c xs
      else (case split_on c xs of [] \<Rightarrow> [[x]] | p # ps \<Rightarrow> (x # p) # ps))"

text \<open>\<open>parts.join(sep)\<close>.\<close>

fun join :: "string \<Rightarrow> string list \<Rightarrow> string" where
  "join sep [] = []"
| "join sep [p] = p"
| "join sep (p # q # ps) = p @ sep @ join sep (q # ps)"

definition trim :: "string \<Rightarrow> string" where
  "trim s = rev (dropWhile is_ws (rev (dropWhile is_ws s)))"

subsection \<open>Reading a number from text\<close>

text \<open>A signed integer of an exponent part: an optional sign and at least one digit.\<close>

definition signed_integer :: "string \<Rightarrow> int option" where
  "signed_integer s =
     (let neg = (case s of [] \<Rightarrow> False | c # _ \<Rightarrow> c = CHR ''-'');
          ds = (case s of [] \<Rightarrow> [] | c # r \<Rightarrow> if c = CHR ''-'' \<or> c = CHR ''+'' then r else s)
      in if ds \<noteq> [] \<and> list_all is_digit ds
         then Some (if neg then - int (digits_val ds) else int (digits_val ds))
         else None)"

text \<open>
  An unsigned decimal literal: digits with an optional fraction after a dot, or a dot
  and digits, then an optional exponent part. The result is its exact value.
\<close>

definition unsigned_decimal :: "string \<Rightarrow> rat option" where
  "unsigned_decimal s =
     (let m = takeWhile (\<lambda>c. c \<noteq> CHR ''e'' \<and> c \<noteq> CHR ''E'') s;
          ex = dropWhile (\<lambda>c. c \<noteq> CHR ''e'' \<and> c \<noteq> CHR ''E'') s;
          ip = takeWhile (\<lambda>c. c \<noteq> CHR ''.'') m;
          fp = (case dropWhile (\<lambda>c. c \<noteq> CHR ''.'') m of [] \<Rightarrow> [] | _ # f \<Rightarrow> f);
          mant = of_nat (digits_val ip) + of_nat (digits_val fp) / 10 ^ length fp
      in if list_all is_digit ip \<and> list_all is_digit fp \<and> \<not> (ip = [] \<and> fp = [])
         then
           (case ex of
              [] \<Rightarrow> Some mant
            | _ # k \<Rightarrow>
                (case signed_integer k of None \<Rightarrow> None | Some e \<Rightarrow> Some (mant * pow10 e)))
         else None)"

text \<open>The value of a character as a digit in base 2, 8 or 16.\<close>

definition digit_in_base :: "nat \<Rightarrow> char \<Rightarrow> nat option" where
  "digit_in_base base c =
     (let n = (of_char c :: nat);
          v = (if 48 \<le> n \<and> n \<le> 57 then Some (n - 48)
               else if 97 \<le> n \<and> n \<le> 102 then Some (n - 87)
               else if 65 \<le> n \<and> n \<le> 70 then Some (n - 55)
               else None)
      in case v of None \<Rightarrow> None | Some d \<Rightarrow> if d < base then Some d else None)"

text \<open>A binary, octal or hexadecimal integer literal: \<open>0b\<close>, \<open>0o\<close> or \<open>0x\<close> (the letter
  in either case) and at least one digit; it takes no sign.\<close>

definition nondecimal :: "string \<Rightarrow> rat option" where
  "nondecimal s =
     (case s of
        c0 # c1 # ds \<Rightarrow>
          (let base = (if c1 = CHR ''b'' \<or> c1 = CHR ''B'' then 2
                       else if c1 = CHR ''o'' \<or> c1 = CHR ''O'' then 8
                       else if c1 = CHR ''x'' \<or> c1 = CHR ''X'' then 16
                       else (0::nat))
           in if c0 = CHR ''0'' \<and> base \<noteq> 0 \<and> ds \<noteq> [] \<and> list_all (\<lambda>c. digit_in_base base c \<noteq> None) ds
              then Some (of_nat (foldl (\<lambda>a c. base * a + (case digit_in_base base c of None \<Rightarrow> 0 | Some d \<Rightarrow> d)) 0 ds))
              else None)
      | _ \<Rightarrow> None)"

text \<open>
  \<open>Number(s)\<close>: white space is trimmed at both ends; the empty string is 0; a
  non-decimal integer literal, \<open>Infinity\<close> with an optional sign, or a decimal literal
  with an optional sign is its value, rounded to a double; any other text is \<open>NaN\<close>.
\<close>

definition Number_js :: "string \<Rightarrow> jsnum" where
  "Number_js s =
     (let t = trim s
      in if t = [] then Num 0
         else
           (case nondecimal t of
              Some v \<Rightarrow> round_double v
            | None \<Rightarrow>
                (let neg = (case t of [] \<Rightarrow> False | c # _ \<Rightarrow> c = CHR ''-'');
                     u = (case t of [] \<Rightarrow> [] | c # r \<Rightarrow> if c = CHR ''-'' \<or> c = CHR ''+'' then r else t)
                 in if u = ''Infinity'' then (if neg then NegInf else PosInf)
                    else
                      (case unsigned_decimal u of
                         None \<Rightarrow> NaN
                       | Some v \<Rightarrow> if neg then js_neg (round_double v) else round_double v))))"

text \<open>
  \<open>parseInt(s, 10)\<close>: leading white space and one sign are skipped, then the longest
  run of digits is read and anything after it is ignored; no digit gives \<open>NaN\<close>
  (\<open>None\<close>). The argument \<open>undefined\<close> (\<open>None\<close>) gives \<open>NaN\<close> as well.
\<close>

definition parseInt :: "string option \<Rightarrow> int option" where
  "parseInt so =
     (case so of
        None \<Rightarrow> None
      | Some s \<Rightarrow>
          (let t = dropWhile is_ws s;
               neg = (case t of [] \<Rightarrow> False | c # _ \<Rightarrow> c = CHR ''-'');
               u = (case t of [] \<Rightarrow> [] | c # r \<Rightarrow> if c = CHR ''-'' \<or> c = CHR ''+'' then r else t);
               ds = takeWhile is_digit u
           in if ds = [] then None
              else Some (if neg then - int (digits_val ds) else int (digits_val ds))))"

section \<open>Address-range math\<close>

datatype error = BadCIDR string | TypeError | NoBlocks

text \<open>\<open>array.reduce(f)\<close> without an initial value: the first element starts the
  accumulation; an empty array raises a \<open>TypeError\<close>.\<close>

definition reduce :: "('a \<Rightarrow> 'a \<Rightarrow> 'a) \<Rightarrow> 'a list \<Rightarrow> error + 'a" where
  "reduce f xs = (case xs of [] \<Rightarrow> Inl TypeError | x # r \<Rightarrow> Inr (foldl f x r))"

definition ipToInt :: "string \<Rightarrow> error + jsnum" where
  "ipToInt ip =
     reduce (\<lambda>a b. js_add (Num (js_shl (int_of_jsnum a) 8)) b)
       (map Number_js (split_on CHR ''.'' ip))"

definition intToIp :: "int \<Rightarrow> string" where
  "intToIp n =
     join ''.'' (map js_toString
       [js_ushr n 24, js_and (js_sshr n 16) 255, js_and (js_sshr n 8) 255, js_and n 255])"

record bounds =
  first :: int
  last :: int

definition parseCIDR :: "string \<Rightarrow> error + bounds" where
  "parseCIDR cidr =
     (case split_on CHR ''/'' cidr of
        [] \<Rightarrow> Inl (BadCIDR cidr)
      | base # rest \<Rightarrow>
          (case parseInt (case rest of [] \<Rightarrow> None | bitsStr # _ \<Rightarrow> Some bitsStr) of
             None \<Rightarrow> Inl (BadCIDR cidr)
           | Some bits \<Rightarrow>
               if base = [] \<or> bits < 0 \<or> bits > 32 then Inl (BadCIDR cidr)
               else
                 (case ipToInt base of
                    Inl e \<Rightarrow> Inl e
                  | Inr baseInt \<Rightarrow>
                      (let mask = (if bits = 0 then 0
                                   else js_ushr (js_ushr (js_shl (js_not 0) (nat (32 - bits))) 0) 0);
                           network = js_and (int_of_jsnum baseInt) mask;
                           size = 2 ^ nat (32 - bits);
                           first = js_ushr network 0;
                           last = js_ushr (network + size - 1) 0
                       in Inr \<lparr>first = first, last = last\<rparr>))))"

text \<open>The loop of \<open>list24Blocks\<close>: \<open>for (b = start24; b <= end24; b += 256) blocks.push(b >>> 0)\<close>.\<close>

function blocks_loop :: "int \<Rightarrow> int \<Rightarrow> int list" where
  "blocks_loop b end24 = (if b \<le> end24 then js_ushr b 0 # blocks_loop (b + 256) end24 else [])"
  by pat_completeness auto
termination
  by (relation "measure (\<lambda>(b, end24). nat (end24 - b + 1))") auto

declare blocks_loop.simps [simp del]

text \<open>The constant \<open>0xffffff00\<close> is 4294967040; \<open>&\<close> returns a signed result.\<close>

definition list24Blocks :: "string \<Rightarrow> error + int list" where
  "list24Blocks cidr =
     (case parseCIDR cidr of
        Inl e \<Rightarrow> Inl e
      | Inr r \<Rightarrow>
          (let start24 = js_and (first r) 4294967040;
               end24 = js_and (last r) 4294967040
           in Inr (blocks_loop start24 end24)))"

subsection \<open>Sampling a sub-block\<close>

definition candidates :: "int list" where
  "candidates = map (\<lambda>x. min 254 (max 1 x)) [10, 42, 77, 99, 123, 150, 180, 200, 220, 240]"

text \<open>The remainder operator \<open>%\<close> takes the sign of the dividend.\<close>

definition js_rem :: "int \<Rightarrow> int \<Rightarrow> int" where
  "js_rem a b = sgn a * (\<bar>a\<bar> mod \<bar>b\<bar>)"

text \<open>The offset tried at step \<open>idx\<close>; \<open>(idx / candidates.length) | 0\<close> truncates the
  quotient and coerces it to 32 bits.\<close>

definition sample_offset :: "nat \<Rightarrow> int" where
  "sample_offset idx =
     (let o' = candidates ! (idx mod length candidates) + ToInt32 (int (idx div length candidates))
      in 1 + js_rem (o' - 1) 254)"

text \<open>\<open>picks.add(off)\<close> on a \<open>Set\<close>, which keeps insertion order.\<close>

definition set_add :: "'a list \<Rightarrow> 'a \<Rightarrow> 'a list" where
  "set_add picks x = (if x \<in> set picks then picks else picks @ [x])"

text \<open>The while loop of \<open>sampleIPsIn24\<close>; \<open>None\<close> is a loop that never ends.\<close>

partial_function (option) sample_loop :: "int \<Rightarrow> nat \<Rightarrow> int list \<Rightarrow> int list option" where
  "sample_loop k idx picks =
     (if int (length picks) < min k 254
      then sample_loop k (idx + 1) (set_add picks (sample_offset idx))
      else Some picks)"

declare sample_loop.simps [code]

text \<open>\<open>xs.slice(0, k)\<close>: a negative end counts from the end of the array.\<close>

definition slice0 :: "'a list \<Rightarrow> int \<Rightarrow> 'a list" where
  "slice0 xs k = (if k < 0 then take (nat (int (length xs) + k)) xs else take (nat k) xs)"

definition sampleIPsIn24 :: "int \<Rightarrow> int \<Rightarrow> string list option" where
  "sampleIPsIn24 blockStartInt k =
     (case sample_loop k 0 [] of
        None \<Rightarrow> None
      | Some picks \<Rightarrow>
          Some (map (\<lambda>off. intToIp (js_ushr (blockStartInt + off) 0)) (slice0 picks k)))"

section \<open>Stage controller: building the sample targets\<close>

record target =
  block :: int
  ip :: string

text \<open>\<open>finalCidrs.flatMap((c) => list24Blocks(c))\<close>: the first range that fails to parse
  aborts the scan.\<close>

fun flatMap_list24Blocks :: "string list \<Rightarrow> error + int list" where
  "flatMap_list24Blocks [] = Inr []"
| "flatMap_list24Blocks (c # cs) =
     (case list24Blocks c of
        Inl e \<Rightarrow> Inl e
      | Inr bs \<Rightarrow>
          (case flatMap_list24Blocks cs of Inl e \<Rightarrow> Inl e | Inr rest \<Rightarrow> Inr (bs @ rest)))"

text \<open>The loop that fills \<open>sampleTargets\<close>: one group of picks for every element of
  \<open>blocks\<close>, in order.\<close>

fun push_sampleTargets :: "int list \<Rightarrow> int \<Rightarrow> target list option" where
  "push_sampleTargets [] samplesPer24 = Some []"
| "push_sampleTargets (b # bs) samplesPer24 =
     (case sampleIPsIn24 b samplesPer24 of
        None \<Rightarrow> None
      | Some picks \<Rightarrow>
          (case push_sampleTargets bs samplesPer24 of
             None \<Rightarrow> None
           | Some rest \<Rightarrow> Some (map (\<lambda>i. \<lparr>block = b, ip = i\<rparr>) picks @ rest)))"

text \<open>The part of \<open>runSmartScan\<close> from the block list to the sample targets.\<close>

definition runSmartScan_sampleTargets :: "string list \<Rightarrow> int \<Rightarrow> (error + target list) option" where
  "runSmartScan_sampleTargets finalCidrs samplesPer24 =
     (case flatMap_list24Blocks finalCidrs of
        Inl e \<Rightarrow> Some (Inl e)
      | Inr blocks \<Rightarrow>
          if blocks = [] then Some (Inl NoBlocks)
          else (case push_sampleTargets blocks samplesPer24 of
                  None \<Rightarrow> None
                | Some sampleTargets \<Rightarrow> Some (Inr sampleTargets)))"

section \<open>Probe set\<close>

text \<open>
  A probe returns a promise. The runtime delivers the events the probe subscribed to, one
  after the other; each handler is a branch below. A promise settles once: a later
  \<open>resolve\<close> leaves it as it is.
\<close>

datatype 'a promise = Pending | Fulfilled 'a | Rejected

definition resolve :: "'a \<Rightarrow> 'a promise \<Rightarrow> 'a promise" where
  "resolve v p = (case p of Pending \<Rightarrow> Fulfilled v | Fulfilled w \<Rightarrow> Fulfilled w | Rejected \<Rightarrow> Rejected)"

text \<open>
  The time limit that \<open>runSmartScan\<close> hands to every probe is the number \<open>timeoutMs\<close> of the
  configuration. \<open>sock.setTimeout\<close> and the \<open>timeout\<close> option of \<open>http.request\<close> accept a
  number that is finite and not below zero, and throw for any other.
\<close>

definition valid_timeout :: "jsnum \<Rightarrow> bool" where
  "valid_timeout t =
     (case t of Num n \<Rightarrow> 0 \<le> n | Frac r \<Rightarrow> 0 \<le> r | NegZero \<Rightarrow> True
      | PosInf \<Rightarrow> False | NegInf \<Rightarrow> False | NaN \<Rightarrow> False)"

datatype sock_event = Connect | Timeout | SockError

text \<open>
  \<open>tcpOpen(ip, timeout)\<close>. The body runs inside the executor of the promise, so a throw of
  \<open>sock.setTimeout(timeout)\<close> rejects the promise before any handler is registered.
  Otherwise \<open>connect\<close> calls \<open>done(true)\<close>, \<open>timeout\<close> and \<open>error\<close> call \<open>done(false)\<close>;
  \<open>done\<close> destroys the socket and resolves. The parameter \<open>sock_events\<close> is the network:
  the events the socket emits, in order, for an address and a time limit.
\<close>

definition tcpOpen_on :: "sock_event \<Rightarrow> bool promise \<Rightarrow> bool promise" where
  "tcpOpen_on ev p =
     (case ev of Connect \<Rightarrow> resolve True p | Timeout \<Rightarrow> resolve False p | SockError \<Rightarrow> resolve False p)"

definition tcpOpen :: "(string \<Rightarrow> jsnum \<Rightarrow> sock_event list) \<Rightarrow> string \<Rightarrow> jsnum \<Rightarrow> bool promise" where
  "tcpOpen sock_events addr timeout =
     (if valid_timeout timeout
      then foldl (\<lambda>p ev. tcpOpen_on ev p) Pending (sock_events addr timeout)
      else Rejected)"

datatype http_event = Response | ReqTimeout | ReqError

text \<open>
  The value of the \<open>Host\<close> header is text of the user, a list of UTF-16 code units.
  \<open>http.request\<close> throws for a header value with a code unit that is not a tab, in
  \<open>0x20\<close> to \<open>0x7e\<close>, or in \<open>0x80\<close> to \<open>0xff\<close>.
\<close>

type_synonym code_units = "nat list"

definition valid_header_unit :: "nat \<Rightarrow> bool" where
  "valid_header_unit u = (u = 9 \<or> (32 \<le> u \<and> u \<le> 126) \<or> (128 \<le> u \<and> u \<le> 255))"

text \<open>
  \<open>httpHead(ip, hostHeaderVal, timeout)\<close>. The header is set only for a non-empty value.
  A throw of \<open>http.request\<close>, for the header value or for the time limit, rejects the
  promise. Otherwise any response resolves \<open>true\<close>; \<open>timeout\<close> destroys the request and
  resolves \<open>false\<close>; \<open>error\<close> resolves \<open>false\<close>. The parameter \<open>request_events\<close> gives the
  events of the request for an address, a header value and a time limit.
\<close>

definition httpHead_on :: "http_event \<Rightarrow> bool promise \<Rightarrow> bool promise" where
  "httpHead_on ev p =
     (case ev of Response \<Rightarrow> resolve True p | ReqTimeout \<Rightarrow> resolve False p | ReqError \<Rightarrow> resolve False p)"

definition httpHead ::
  "(string \<Rightarrow> code_units \<Rightarrow> jsnum \<Rightarrow> http_event list) \<Rightarrow> string \<Rightarrow> code_units \<Rightarrow> jsnum \<Rightarrow> bool promise" where
  "httpHead request_events addr hostHeaderVal timeout =
     (if list_all valid_header_unit hostHeaderVal
      then (if valid_timeout timeout
            then foldl (\<lambda>p ev. httpHead_on ev p) Pending (request_events addr hostHeaderVal timeout)
            else Rejected)
      else Rejected)"

subsection \<open>The latency probe\<close>

text \<open>The pattern \<open>/time[=<]?\s*([\d.]+)\s*ms/i\<close>. Letters match in either case.\<close>

definition lower :: "char \<Rightarrow> char" where
  "lower c = (if 65 \<le> (of_char c :: nat) \<and> (of_char c :: nat) \<le> 90 then char_of ((of_char c :: nat) + 32) else c)"

definition starts_with_ci :: "string \<Rightarrow> string \<Rightarrow> bool" where
  "starts_with_ci w s = (length w \<le> length s \<and> map lower (take (length w) s) = w)"

definition is_digit_or_dot :: "char \<Rightarrow> bool" where
  "is_digit_or_dot c = (is_digit c \<or> c = CHR ''.'')"

text \<open>
  A match that starts at the head of \<open>s\<close>, giving the captured group. The greedy parts
  need no backtracking: after \<open>time\<close> an \<open>=\<close> or \<open><\<close> must be consumed (the pattern cannot
  continue on it otherwise), white space is never a digit, a dot or the letter m, and the
  run of digits and dots must be followed by white space or \<open>ms\<close>.
\<close>

definition match_here :: "string \<Rightarrow> string option" where
  "match_here s =
     (if starts_with_ci ''time'' s then
        (let r1 = drop 4 s;
             r1' = (case r1 of [] \<Rightarrow> [] | c # r \<Rightarrow> if c = CHR ''='' \<or> c = CHR ''<'' then r else r1);
             r2 = dropWhile is_ws r1';
             g = takeWhile is_digit_or_dot r2;
             r3 = dropWhile is_ws (dropWhile is_digit_or_dot r2)
         in if g \<noteq> [] \<and> starts_with_ci ''ms'' r3 then Some g else None)
      else None)"

text \<open>\<open>out.match(re)\<close>: the leftmost position with a match; \<open>None\<close> is \<open>null\<close>.\<close>

fun match_time :: "string \<Rightarrow> string option" where
  "match_time [] = match_here []"
| "match_time (c # s) = (case match_here (c # s) of Some g \<Rightarrow> Some g | None \<Rightarrow> match_time s)"

text \<open>The result \<open>{ ok, ms }\<close>; \<open>ms = None\<close> is \<open>null\<close>, any other \<open>ms\<close> is a number.\<close>

record 'ms ping_result =
  ok :: bool
  ms :: "'ms option"

datatype ping_event = Stdout string | Stderr string | Close | ChildError

record 'ms ping_state =
  out :: string
  promise :: "'ms ping_result promise"

text \<open>The events that carry output, and the text they carry.\<close>

definition is_data :: "ping_event \<Rightarrow> bool" where
  "is_data ev = (case ev of Stdout d \<Rightarrow> True | Stderr d \<Rightarrow> True | Close \<Rightarrow> False | ChildError \<Rightarrow> False)"

definition data_of :: "ping_event \<Rightarrow> string" where
  "data_of ev = (case ev of Stdout d \<Rightarrow> d | Stderr d \<Rightarrow> d | Close \<Rightarrow> [] | ChildError \<Rightarrow> [])"

text \<open>
  \<open>pingOnce(ip, timeout)\<close>: data from either stream is appended to \<open>out\<close>; on \<open>close\<close> the
  pattern is matched and \<open>parseFloat\<close> reads the group; a child \<open>error\<close> resolves
  \<open>{ok: false, ms: null}\<close>. The timer that kills a slow child makes the runtime deliver
  \<open>close\<close>. \<open>parseFloat\<close> is a parameter, and so is \<open>child_events\<close>: what the \<open>ping\<close>
  process started for an address and a time limit emits (its arguments are built from
  these two and from the platform).
\<close>

definition pingOnce_on :: "(string \<Rightarrow> 'ms) \<Rightarrow> ping_event \<Rightarrow> 'ms ping_state \<Rightarrow> 'ms ping_state" where
  "pingOnce_on parseFloat ev st =
     (case ev of
        Stdout d \<Rightarrow> st\<lparr>out := out st @ d\<rparr>
      | Stderr d \<Rightarrow> st\<lparr>out := out st @ d\<rparr>
      | Close \<Rightarrow>
          (case match_time (out st) of
             Some g \<Rightarrow> st\<lparr>promise := resolve \<lparr>ok = True, ms = Some (parseFloat g)\<rparr> (promise st)\<rparr>
           | None \<Rightarrow> st\<lparr>promise := resolve \<lparr>ok = False, ms = None\<rparr> (promise st)\<rparr>)
      | ChildError \<Rightarrow> st\<lparr>promise := resolve \<lparr>ok = False, ms = None\<rparr> (promise st)\<rparr>)"

definition pingOnce ::
  "(string \<Rightarrow> 'ms) \<Rightarrow> (string \<Rightarrow> jsnum \<Rightarrow> ping_event list) \<Rightarrow> string \<Rightarrow> jsnum \<Rightarrow> 'ms ping_result promise" where
  "pingOnce parseFloat child_events addr timeout =
     promise (foldl (\<lambda>st ev. pingOnce_on parseFloat ev st) \<lparr>out = [], promise = Pending\<rparr>
                (child_events addr timeout))"

section \<open>Stage B and completion\<close>

record 'ms item =
  item_ip :: string
  item_ms :: 'ms

text \<open>What a task body does: it never returns while it awaits a pending promise, it throws
  when an awaited promise rejects, or it returns.\<close>

datatype 'a task_result = Hangs | Throws | Returns 'a

record 'ms stageB_state =
  valid :: "'ms item list"
  stageBDone :: nat

text \<open>
  The task of Stage B for one expansion target, with the \<open>hostHeader\<close> and \<open>timeoutMs\<close> of
  the configuration. \<open>if (hostHeader)\<close> is true for a non-empty string.
\<close>

definition stageB_task ::
  "(string \<Rightarrow> 'ms) \<Rightarrow> (string \<Rightarrow> jsnum \<Rightarrow> sock_event list) \<Rightarrow>
   (string \<Rightarrow> code_units \<Rightarrow> jsnum \<Rightarrow> http_event list) \<Rightarrow> (string \<Rightarrow> jsnum \<Rightarrow> ping_event list) \<Rightarrow>
   code_units \<Rightarrow> jsnum \<Rightarrow> string \<Rightarrow> 'ms stageB_state \<Rightarrow> 'ms stageB_state task_result" where
  "stageB_task parseFloat sock_events request_events child_events hostHeader timeoutMs addr st =
     (case tcpOpen sock_events addr timeoutMs of
        Pending \<Rightarrow> Hangs
      | Rejected \<Rightarrow> Throws
      | Fulfilled is_open \<Rightarrow>
          if \<not> is_open then Returns (st\<lparr>stageBDone := stageBDone st + 1\<rparr>)
          else
            (case (if hostHeader \<noteq> [] then httpHead request_events addr hostHeader timeoutMs
                   else Fulfilled True) of
               Pending \<Rightarrow> Hangs
             | Rejected \<Rightarrow> Throws
             | Fulfilled ok_head \<Rightarrow>
                 if \<not> ok_head then Returns (st\<lparr>stageBDone := stageBDone st + 1\<rparr>)
                 else
                   (case pingOnce parseFloat child_events addr timeoutMs of
                      Pending \<Rightarrow> Hangs
                    | Rejected \<Rightarrow> Throws
                    | Fulfilled p \<Rightarrow>
                        (case ms p of
                           Some m \<Rightarrow>
                             if ok p
                             then Returns (st\<lparr>valid := valid st @ [\<lparr>item_ip = addr, item_ms = m\<rparr>],
                                             stageBDone := stageBDone st + 1\<rparr>)
                             else Returns (st\<lparr>stageBDone := stageBDone st + 1\<rparr>)
                         | None \<Rightarrow> Returns (st\<lparr>stageBDone := stageBDone st + 1\<rparr>)))))"

subsection \<open>Sorting and rendering\<close>

text \<open>
  \<open>array.sort(cmp)\<close> is a stable sort; for a comparator that is consistent the result is the
  one of insertion from the right, where an element moves past those it compares greater
  than. Latencies are numbers other than \<open>NaN\<close>, read as reals.
\<close>

fun insert_cmp :: "('a \<Rightarrow> 'a \<Rightarrow> real) \<Rightarrow> 'a \<Rightarrow> 'a list \<Rightarrow> 'a list" where
  "insert_cmp cmp x [] = [x]"
| "insert_cmp cmp x (y # ys) = (if cmp x y > 0 then y # insert_cmp cmp x ys else x # y # ys)"

definition js_sort :: "('a \<Rightarrow> 'a \<Rightarrow> real) \<Rightarrow> 'a list \<Rightarrow> 'a list" where
  "js_sort cmp xs = foldr (insert_cmp cmp) xs []"

record scan_result =
  res_valid :: "real item list"
  res_txt :: string
  res_csv :: string

text \<open>The end of \<open>runSmartScan\<close>: sort in place, then render; \<open>toFixed(3)\<close> is a parameter.\<close>

definition runSmartScan_finish :: "(real \<Rightarrow> string) \<Rightarrow> real item list \<Rightarrow> scan_result" where
  "runSmartScan_finish toFixed3 valid0 =
     (let sorted = js_sort (\<lambda>a b. item_ms a - item_ms b) valid0;
          txt = join [char_of (10::nat)] (map item_ip sorted);
          csv = ''ip,ping_ms'' @ [char_of (10::nat)]
                  @ join [char_of (10::nat)] (map (\<lambda>v. item_ip v @ '','' @ toFixed3 (item_ms v)) sorted)
      in \<lparr>res_valid = sorted, res_txt = txt, res_csv = csv\<rparr>)"

section \<open>Bounded executor\<close>

text \<open>
  \<open>createQueue(limit)\<close>. A job is named by a number. A job is in \<open>q\<close> until \<open>pump\<close> starts
  it; it is in \<open>running\<close> while its body is in flight; when the body settles, the \<open>then\<close>
  callback settles the caller's promise (\<open>True\<close> for resolve, \<open>False\<close> for reject) and the
  job waits in \<open>finishing\<close> for its \<open>finally\<close> callback, which decrements \<open>active\<close> and
  pumps. Job bodies are async functions: calling one returns a promise and does not throw.
\<close>

record queue_state =
  active :: nat
  q :: "nat list"
  running :: "nat list"
  finishing :: "nat list"
  settled :: "(nat \<times> bool) list"

definition init_queue :: queue_state where
  "init_queue = \<lparr>active = 0, q = [], running = [], finishing = [], settled = []\<rparr>"

function pump :: "nat \<Rightarrow> queue_state \<Rightarrow> queue_state" where
  "pump limit s =
     (case q s of
        [] \<Rightarrow> s
      | job # rest \<Rightarrow>
          if active s < limit
          then pump limit (s\<lparr>active := active s + 1, q := rest, running := running s @ [job]\<rparr>)
          else s)"
  by pat_completeness auto
termination
  by (relation "measure (\<lambda>(limit, s). length (q s))") auto

declare pump.simps [simp del]

datatype queue_event = Submit nat | Settles nat bool | Finally nat

text \<open>One event of the queue; \<open>None\<close> when the event cannot happen in the state.\<close>

definition queue_step :: "nat \<Rightarrow> queue_event \<Rightarrow> queue_state \<Rightarrow> queue_state option" where
  "queue_step limit ev s =
     (case ev of
        Submit job \<Rightarrow> Some (pump limit (s\<lparr>q := q s @ [job]\<rparr>))
      | Settles job res \<Rightarrow>
          if job \<in> set (running s)
          then Some (s\<lparr>running := remove1 job (running s),
                       finishing := finishing s @ [job],
                       settled := settled s @ [(job, res)]\<rparr>)
          else None
      | Finally job \<Rightarrow>
          if job \<in> set (finishing s)
          then Some (pump limit (s\<lparr>finishing := remove1 job (finishing s), active := active s - 1\<rparr>))
          else None)"

fun queue_run :: "nat \<Rightarrow> queue_event list \<Rightarrow> queue_state \<Rightarrow> queue_state option" where
  "queue_run limit [] s = Some s"
| "queue_run limit (ev # evs) s =
     (case queue_step limit ev s of None \<Rightarrow> None | Some s' \<Rightarrow> queue_run limit evs s')"

fun submitted :: "queue_event list \<Rightarrow> nat list" where
  "submitted [] = []"
| "submitted (Submit job # evs) = job # submitted evs"
| "submitted (ev # evs) = submitted evs"

text \<open>Work left: two callbacks for a job not yet settled, one for a job that waits for
  its \<open>finally\<close>.\<close>

definition callbacks_left :: "queue_state \<Rightarrow> nat" where
  "callbacks_left s = 2 * (length (q s) + length (running s)) + length (finishing s)"

text \<open>What holds between events: \<open>active\<close> counts the jobs started and not yet
  through their \<open>finally\<close>, it stays within the limit, and a job waits only while the
  executor is full.\<close>

definition queue_inv :: "nat \<Rightarrow> queue_state \<Rightarrow> bool" where
  "queue_inv limit s =
     (active s = length (running s) + length (finishing s) \<and> active s \<le> limit
      \<and> (q s = [] \<or> active s = limit))"

section \<open>Properties\<close>

subsection \<open>Splitting, printing and reading decimal text\<close>

lemma split_on_not_Nil: "split_on c s \<noteq> []"
  by (induction s) (auto split: list.splits)

lemma split_on_no_sep: "c \<notin> set s \<Longrightarrow> split_on c s = [s]"
  by (induction s) auto

lemma split_on_append: "c \<notin> set p \<Longrightarrow> split_on c (p @ c # s) = p # split_on c s"
  by (induction p) auto

lemma is_digit_digit_char: "n < 10 \<Longrightarrow> is_digit (digit_char n)"
  by (simp add: is_digit_def digit_char_def)

lemma digit_val_digit_char: "n < 10 \<Longrightarrow> digit_val (digit_char n) = n"
  by (simp add: digit_val_def digit_char_def)

lemma show_nat_digits: "list_all is_digit (show_nat n)"
  by (induction n rule: show_nat.induct) (subst show_nat.simps, simp add: is_digit_digit_char)

lemma show_nat_not_Nil: "show_nat n \<noteq> []"
  by (subst show_nat.simps) simp

lemma digits_val_snoc: "digits_val (ds @ [c]) = 10 * digits_val ds + digit_val c"
  by (simp add: digits_val_def)

lemma digits_val_show_nat: "digits_val (show_nat n) = n"
proof (induction n rule: show_nat.induct)
  case (1 n)
  show ?case
  proof (cases "n < 10")
    case True
    then show ?thesis by (subst show_nat.simps) (simp add: digits_val_def digit_val_digit_char)
  next
    case False
    then have "digits_val (show_nat n) = 10 * digits_val (show_nat (n div 10)) + digit_val (digit_char (n mod 10))"
      by (subst show_nat.simps) (simp add: digits_val_snoc)
    with False 1 show ?thesis by (simp add: digit_val_digit_char)
  qed
qed

lemma is_digit_not_ws: "is_digit c \<Longrightarrow> \<not> is_ws c"
  by (auto simp: is_digit_def is_ws_def)

lemma is_digit_not_sign: "is_digit c \<Longrightarrow> c \<noteq> CHR ''-'' \<and> c \<noteq> CHR ''+'' \<and> c \<noteq> CHR ''.'' \<and> c \<noteq> CHR ''/''"
  by (auto simp: is_digit_def)

lemma trim_digits: "list_all is_digit ds \<Longrightarrow> trim ds = ds"
proof (cases ds rule: rev_cases)
  case Nil then show ?thesis by (simp add: trim_def)
next
  case (snoc ys y)
  assume "list_all is_digit ds"
  with snoc have y: "\<not> is_ws y" and "ds \<noteq> []" "\<not> is_ws (hd ds)"
    by (auto simp: is_digit_not_ws list_all_iff hd_append)
  then have "dropWhile is_ws ds = ds" by (cases ds) auto
  with snoc y show ?thesis by (simp add: trim_def)
qed

lemma round_double_int: "\<bar>n\<bar> \<le> 2 ^ 53 \<Longrightarrow> round_double (of_int n) = Num n"
proof -
  assume "\<bar>n\<bar> \<le> 2 ^ 53"
  then have "\<bar>(of_int n :: rat)\<bar> \<le> 2 ^ 53"
    by (metis of_int_abs of_int_le_iff of_int_numeral of_int_power)
  then show ?thesis by (simp add: round_double_def)
qed

lemma js_add_Num: "\<bar>x + y\<bar> \<le> 2 ^ 53 \<Longrightarrow> js_add (Num x) (Num y) = Num (x + y)"
  using round_double_int[of "x + y"] by (simp add: js_add_def rat_of_jsnum_def)

lemma digits_no_marks:
  assumes "list_all is_digit ds"
  shows "takeWhile (\<lambda>c. c \<noteq> CHR ''e'' \<and> c \<noteq> CHR ''E'') ds = ds"
    and "dropWhile (\<lambda>c. c \<noteq> CHR ''e'' \<and> c \<noteq> CHR ''E'') ds = []"
    and "takeWhile (\<lambda>c. c \<noteq> CHR ''.'') ds = ds"
    and "dropWhile (\<lambda>c. c \<noteq> CHR ''.'') ds = []"
proof -
  have "\<forall>c \<in> set ds. c \<noteq> CHR ''e'' \<and> c \<noteq> CHR ''E'' \<and> c \<noteq> CHR ''.''"
    using assms by (auto simp: list_all_iff is_digit_def)
  then show "takeWhile (\<lambda>c. c \<noteq> CHR ''e'' \<and> c \<noteq> CHR ''E'') ds = ds"
    and "dropWhile (\<lambda>c. c \<noteq> CHR ''e'' \<and> c \<noteq> CHR ''E'') ds = []"
    and "takeWhile (\<lambda>c. c \<noteq> CHR ''.'') ds = ds"
    and "dropWhile (\<lambda>c. c \<noteq> CHR ''.'') ds = []"
    by (simp_all add: takeWhile_eq_all_conv dropWhile_eq_Nil_conv)
qed

lemma unsigned_decimal_digits:
  assumes "list_all is_digit ds" "ds \<noteq> []"
  shows "unsigned_decimal ds = Some (of_nat (digits_val ds))"
  using assms by (simp add: unsigned_decimal_def digits_no_marks[OF assms(1)] digits_val_def)

lemma nondecimal_digits:
  assumes "list_all is_digit ds"
  shows "nondecimal ds = None"
proof (cases ds)
  case Nil
  then show ?thesis by (simp add: nondecimal_def)
next
  case (Cons c0 r)
  show ?thesis
  proof (cases r)
    case Nil
    with Cons show ?thesis by (simp add: nondecimal_def)
  next
    case (Cons c1 r')
    with assms \<open>ds = c0 # r\<close> have "is_digit c1" by simp
    then have "c1 \<noteq> CHR ''b'' \<and> c1 \<noteq> CHR ''B'' \<and> c1 \<noteq> CHR ''o'' \<and> c1 \<noteq> CHR ''O''
        \<and> c1 \<noteq> CHR ''x'' \<and> c1 \<noteq> CHR ''X''"
      by (auto simp: is_digit_def)
    with Cons \<open>ds = c0 # r\<close> show ?thesis by (simp add: nondecimal_def)
  qed
qed

lemma Number_js_show_nat:
  assumes "n \<le> 2 ^ 53"
  shows "Number_js (show_nat n) = Num (int n)"
proof -
  obtain c r where cr: "show_nat n = c # r" using show_nat_not_Nil by (cases "show_nat n") auto
  have d: "list_all is_digit (c # r)" using show_nat_digits[of n] cr by simp
  then have "is_digit c" by simp
  then have c: "c \<noteq> CHR ''-''" "c \<noteq> CHR ''+''" "c \<noteq> CHR ''I''"
    using is_digit_not_sign by (auto simp: is_digit_def)
  have t: "trim (c # r) = c # r" using d by (rule trim_digits)
  have u: "unsigned_decimal (c # r) = Some (of_nat n)"
    using unsigned_decimal_digits[OF d] digits_val_show_nat[of n] cr by simp
  have "\<bar>int n\<bar> \<le> 2 ^ 53" using assms by simp
  then have r: "round_double (of_nat n) = Num (int n)"
    using round_double_int[of "int n"] by simp
  show ?thesis
    unfolding cr Number_js_def t
    using c by (simp add: nondecimal_digits[OF d] u r)
qed

lemma Number_js_octet: "n < 256 \<Longrightarrow> Number_js (show_nat n) = Num (int n)"
  by (rule Number_js_show_nat) simp

lemma parseInt_show_nat: "parseInt (Some (show_nat n)) = Some (int n)"
proof -
  obtain c r where cr: "show_nat n = c # r" using show_nat_not_Nil by (cases "show_nat n") auto
  have d: "list_all is_digit (c # r)" using show_nat_digits[of n] cr by simp
  then have c: "is_digit c" by simp
  then have ns: "c \<noteq> CHR ''-''" "c \<noteq> CHR ''+''" "\<not> is_ws c" using is_digit_not_sign is_digit_not_ws by auto
  have tw: "takeWhile is_digit (c # r) = c # r" using d by (simp add: list_all_iff)
  show ?thesis
    using ns tw cr digits_val_show_nat[of n]
    by (simp add: parseInt_def Let_def)
qed

lemma ipToInt_total: "\<exists>v. ipToInt s = Inr v"
  using split_on_not_Nil[of "CHR ''.''" s]
  by (cases "split_on CHR ''.'' s") (auto simp: ipToInt_def reduce_def)

lemma parseCIDR_split:
  assumes "CHR ''/'' \<notin> set base" "CHR ''/'' \<notin> set bitsStr"
  shows "split_on CHR ''/'' (base @ ''/'' @ bitsStr) = [base, bitsStr]"
  using assms by (simp add: split_on_append split_on_no_sep)


subsection \<open>32-bit arithmetic\<close>

lemma and_neg_pow2: "(x::int) AND - (2 ^ k) = x - x mod 2 ^ k"
proof -
  have "x AND NOT (mask k) = push_bit k (drop_bit k x)"
    by (rule bit_eqI) (auto simp: bit_simps)
  moreover have "push_bit k (drop_bit k x) + take_bit k x = x"
    by (rule bits_ident)
  ultimately show ?thesis
    by (simp add: minus_exp_eq_not_mask take_bit_int_def)
qed

lemma and_255: "(x::int) AND 255 = x mod 256"
proof -
  have "x AND mask 8 = take_bit 8 x" by (simp add: take_bit_eq_mask)
  then show ?thesis by (simp add: take_bit_int_def mask_eq_exp_minus_1)
qed

lemma and_ffffff00: "(x::int) AND -256 = x - x mod 256"
  using and_neg_pow2[of x 8] by simp

lemma pow2_dvd_32: "k \<le> 32 \<Longrightarrow> (2::int) ^ k dvd 2 ^ 32"
  by (rule le_imp_power_dvd)

lemma ToUint32_ToInt32: "ToUint32 (ToInt32 x) = ToUint32 x"
  by (simp add: ToUint32_def ToInt32_def mod_diff_left_eq)

lemma ToInt32_range: "- (2 ^ 31) \<le> ToInt32 x \<and> ToInt32 x < 2 ^ 31"
  by (simp add: ToInt32_def)

lemma ToInt32_id: "- (2 ^ 31) \<le> x \<Longrightarrow> x < 2 ^ 31 \<Longrightarrow> ToInt32 x = x"
  by (simp add: ToInt32_def)

lemma ToUint32_id: "0 \<le> x \<Longrightarrow> x < 2 ^ 32 \<Longrightarrow> ToUint32 x = x"
  by (simp add: ToUint32_def)

lemma ToUint32_range: "0 \<le> ToUint32 x \<and> ToUint32 x < 2 ^ 32"
  by (simp add: ToUint32_def)

lemma ToInt32_mod_pow2:
  assumes "k \<le> 32"
  shows "ToInt32 x mod 2 ^ k = x mod 2 ^ k"
proof -
  have d: "(2::int) ^ k dvd 2 ^ 32" using assms by (rule pow2_dvd_32)
  have "ToInt32 x mod 2 ^ 32 = x mod 2 ^ 32"
    using ToUint32_ToInt32[of x] by (simp add: ToUint32_def)
  then have "ToInt32 x mod 2 ^ 32 mod 2 ^ k = x mod 2 ^ 32 mod 2 ^ k" by simp
  then show ?thesis using d by (simp add: mod_mod_cancel)
qed

lemma pow2_le_31: "k \<le> 31 \<Longrightarrow> (2::int) ^ k \<le> 2 ^ 31"
  by (rule power_increasing) simp_all

lemma js_shl_minus_one:
  assumes "k \<le> 31"
  shows "js_shl (- 1) k = - (2 ^ k)"
proof -
  have "(2::int) ^ k \<le> 2 ^ 31" using assms by (rule pow2_le_31)
  moreover have "(0::int) < 2 ^ k" by simp
  ultimately have "ToInt32 (- (2 ^ k)) = - (2 ^ k)" by (intro ToInt32_id) linarith+
  moreover have "ToInt32 (- 1) = - 1" by (simp add: ToInt32_def)
  ultimately show ?thesis using assms by (simp add: js_shl_def)
qed

lemma js_ushr_0: "js_ushr x 0 = ToUint32 x"
  by (simp add: js_ushr_def)

lemma ToUint32_idem: "ToUint32 (ToUint32 x) = ToUint32 x"
  by (simp add: ToUint32_def)

text \<open>The mask of a prefix length 1..32, and what \<open>&\<close> does with it.\<close>

lemma ToInt32_ToUint32: "ToInt32 (ToUint32 x) = ToInt32 x"
  by (simp add: ToUint32_def ToInt32_def mod_add_left_eq)

lemma js_and_mask:
  assumes "k \<le> 31"
  shows "js_and b (js_ushr (js_ushr (js_shl (js_not 0) k) 0) 0) = ToInt32 b - b mod 2 ^ k"
proof -
  have n: "js_not 0 = - 1" by (simp add: js_not_def ToInt32_def)
  have "(2::int) ^ k \<le> 2 ^ 31" using assms by (rule pow2_le_31)
  moreover have "(0::int) < 2 ^ k" by simp
  ultimately have i: "ToInt32 (- (2 ^ k)) = - (2 ^ k)" by (intro ToInt32_id) linarith+
  have "ToInt32 (js_ushr (js_ushr (js_shl (js_not 0) k) 0) 0) = - (2 ^ k)"
    using assms i by (simp add: n js_shl_minus_one js_ushr_0 ToUint32_idem ToInt32_ToUint32)
  then show ?thesis
    using assms by (simp add: js_and_def and_neg_pow2 ToInt32_mod_pow2)
qed

lemma network_first:
  assumes "k \<le> 32"
  shows "ToUint32 (ToInt32 b - b mod 2 ^ k) = ToUint32 b - ToUint32 b mod 2 ^ k"
proof -
  have d: "(2::int) ^ k dvd 2 ^ 32" using assms by (rule pow2_dvd_32)
  have r: "ToUint32 b mod 2 ^ k = b mod 2 ^ k"
    using d by (simp add: ToUint32_def mod_mod_cancel)
  have "ToUint32 (ToInt32 b - b mod 2 ^ k) = (ToUint32 (ToInt32 b) - b mod 2 ^ k) mod 2 ^ 32"
    by (simp add: ToUint32_def mod_diff_left_eq)
  also have "\<dots> = (ToUint32 b - ToUint32 b mod 2 ^ k) mod 2 ^ 32"
    by (simp add: ToUint32_ToInt32 r)
  also have "\<dots> = ToUint32 b - ToUint32 b mod 2 ^ k"
  proof (rule mod_pos_pos_trivial)
    show "0 \<le> ToUint32 b - ToUint32 b mod 2 ^ k"
      using ToUint32_range[of b] by (simp add: zmod_le_nonneg_dividend)
    have "0 \<le> ToUint32 b mod (2::int) ^ k" by simp
    then show "ToUint32 b - ToUint32 b mod 2 ^ k < 2 ^ 32"
      using ToUint32_range[of b] by linarith
  qed
  finally show ?thesis .
qed

lemma aligned_room:
  assumes "k \<le> 32" "0 \<le> u" "u < 2 ^ 32"
  shows "(u::int) - u mod 2 ^ k + 2 ^ k \<le> 2 ^ 32"
proof -
  have d: "(2::int) ^ k dvd 2 ^ 32" using assms(1) by (rule pow2_dvd_32)
  have "(2::int) ^ k dvd u - u mod 2 ^ k" by (simp add: dvd_minus_mod)
  with d have "(2::int) ^ k dvd 2 ^ 32 - (u - u mod 2 ^ k)" by (rule dvd_diff)
  moreover have "0 < 2 ^ 32 - (u - u mod 2 ^ k)"
  proof -
    have "0 \<le> u mod (2::int) ^ k" by simp
    with assms show ?thesis by linarith
  qed
  ultimately have "(2::int) ^ k \<le> 2 ^ 32 - (u - u mod 2 ^ k)" by (rule zdvd_imp_le)
  then show ?thesis by linarith
qed

lemma div_pow2_range:
  assumes "- (2 ^ 31) \<le> (m::int)" "m < 2 ^ 31"
  shows "- (2 ^ 31) \<le> m div 2 ^ s \<and> m div 2 ^ s < 2 ^ 31"
proof (cases "m < 0")
  case True
  have "m div 1 \<le> m div 2 ^ s" using True by (intro zdiv_mono2_neg) simp_all
  moreover have "m div 2 ^ s < 0" using True by (simp add: pos_imp_zdiv_neg_iff)
  ultimately show ?thesis using assms by simp
next
  case False
  then have "0 \<le> m div 2 ^ s" by (simp add: pos_imp_zdiv_nonneg_iff)
  moreover have "m div 2 ^ s \<le> m" proof (cases "m = 0")
    case True then show ?thesis by simp
  next
    case F: False with False have "0 < m" by simp
    then show ?thesis by (rule int_div_le_self)
  qed
  ultimately show ?thesis using assms by simp
qed

subsection \<open>Bounds of a parsed range\<close>

lemma parseCIDR_bounds:
  assumes sp: "split_on CHR ''/'' cidr = base # bitsStr # rest"
    and pi: "parseInt (Some bitsStr) = Some (int p)"
    and ne: "base \<noteq> []"
    and p: "p \<le> 32"
    and ip: "ipToInt base = Inr baseInt"
  shows "parseCIDR cidr =
     Inr \<lparr>first = ToUint32 (int_of_jsnum baseInt) - ToUint32 (int_of_jsnum baseInt) mod 2 ^ (32 - p),
          last = ToUint32 (int_of_jsnum baseInt) - ToUint32 (int_of_jsnum baseInt) mod 2 ^ (32 - p)
                   + 2 ^ (32 - p) - 1\<rparr>"
proof (cases "p = 0")
  case True
  have u: "ToUint32 (int_of_jsnum baseInt) mod 2 ^ 32 = ToUint32 (int_of_jsnum baseInt)"
    by (simp add: ToUint32_def)
  have z: "js_and (int_of_jsnum baseInt) 0 = 0" by (simp add: js_and_def ToInt32_def)
  have l: "js_ushr (2 ^ 32 - 1) 0 = 2 ^ 32 - 1" by (simp add: js_ushr_def ToUint32_def)
  have f: "js_ushr 0 0 = 0" by (simp add: js_ushr_def ToUint32_def)
  show ?thesis
    unfolding parseCIDR_def sp using pi ne ip True u z l f
    by (simp add: Let_def)
next
  case False
  define k where "k = 32 - p"
  define b where "b = int_of_jsnum baseInt"
  have k: "k \<le> 31" "k \<le> 32" and nk: "nat (32 - int p) = k" using False p by (simp_all add: k_def)
  have u: "0 \<le> ToUint32 b" "ToUint32 b < 2 ^ 32" using ToUint32_range[of b] by simp_all
  have net: "js_and b (js_ushr (js_ushr (js_shl (js_not 0) k) 0) 0) = ToInt32 b - b mod 2 ^ k"
    using k(1) by (rule js_and_mask)
  have fst: "js_ushr (ToInt32 b - b mod 2 ^ k) 0 = ToUint32 b - ToUint32 b mod 2 ^ k"
    using network_first[OF k(2), of b] by (simp add: js_ushr_0)
  have "js_ushr (ToInt32 b - b mod 2 ^ k + 2 ^ k - 1) 0
      = (ToUint32 (ToInt32 b - b mod 2 ^ k) + (2 ^ k - 1)) mod 2 ^ 32"
  proof -
    have "ToInt32 b - b mod 2 ^ k + 2 ^ k - 1 = (ToInt32 b - b mod 2 ^ k) + (2 ^ k - 1)" by simp
    then show ?thesis
      unfolding js_ushr_0 ToUint32_def by (simp only: mod_add_left_eq)
  qed
  also have "\<dots> = (ToUint32 b - ToUint32 b mod 2 ^ k + (2 ^ k - 1)) mod 2 ^ 32"
    using network_first[OF k(2), of b] by simp
  also have "\<dots> = ToUint32 b - ToUint32 b mod 2 ^ k + (2 ^ k - 1)"
  proof (rule mod_pos_pos_trivial)
    have "ToUint32 b mod 2 ^ k \<le> ToUint32 b" using u(1) by (rule zmod_le_nonneg_dividend)
    moreover have "(1::int) \<le> 2 ^ k" by simp
    ultimately show "0 \<le> ToUint32 b - ToUint32 b mod 2 ^ k + (2 ^ k - 1)" by linarith
    show "ToUint32 b - ToUint32 b mod 2 ^ k + (2 ^ k - 1) < 2 ^ 32"
      using aligned_room[OF k(2) u] by linarith
  qed
  finally have lst: "js_ushr (ToInt32 b - b mod 2 ^ k + 2 ^ k - 1) 0
      = ToUint32 b - ToUint32 b mod 2 ^ k + 2 ^ k - 1" by simp
  show ?thesis
    unfolding parseCIDR_def sp using pi ne ip False p
    by (simp add: Let_def nk net fst lst flip: b_def k_def)
qed

lemma show_nat_no_sep: "CHR ''.'' \<notin> set (show_nat n) \<and> CHR ''/'' \<notin> set (show_nat n)"
  using show_nat_digits[of n] is_digit_not_sign by (auto simp: list_all_iff)

lemma split_quad:
  "split_on CHR ''.'' (show_nat a @ ''.'' @ show_nat b @ ''.'' @ show_nat c @ ''.'' @ show_nat d)
     = [show_nat a, show_nat b, show_nat c, show_nat d]"
  using show_nat_no_sep by (simp add: split_on_append split_on_no_sep)

lemma js_shl_8_small: "0 \<le> x \<Longrightarrow> x < 2 ^ 23 \<Longrightarrow> js_shl x 8 = x * 256"
  by (simp add: js_shl_def ToInt32_def)

lemma ToInt32_hi: "2 ^ 31 \<le> x \<Longrightarrow> x < 2 ^ 32 \<Longrightarrow> ToInt32 x = x - 2 ^ 32"
proof -
  assume a: "2 ^ 31 \<le> x" "x < 2 ^ 32"
  have "(x + 2 ^ 31) mod 2 ^ 32 = (x + 2 ^ 31 - 2 ^ 32) mod 2 ^ 32"
    by (metis mod_diff_right_eq mod_self diff_zero)
  also have "\<dots> = x + 2 ^ 31 - 2 ^ 32"
    using a by (intro mod_pos_pos_trivial) simp_all
  finally show ?thesis by (simp add: ToInt32_def)
qed

lemma ipToInt_step:
  assumes "0 \<le> x" "x < 2 ^ 23" "0 \<le> y" "y < 256"
  shows "js_add (Num (js_shl (int_of_jsnum (Num x)) 8)) (Num y) = Num (x * 256 + y)"
proof -
  have "\<bar>x * 256 + y\<bar> \<le> 2 ^ 53" using assms by simp
  then have "js_add (Num (x * 256)) (Num y) = Num (x * 256 + y)" by (rule js_add_Num)
  then show ?thesis using assms by (simp add: int_of_jsnum_def js_shl_8_small)
qed

lemma ipToInt_quad:
  assumes "a < 256" "b < 256" "c < 256" "d < 256"
  shows "ipToInt (show_nat a @ ''.'' @ show_nat b @ ''.'' @ show_nat c @ ''.'' @ show_nat d)
     = Inr (Num (ToInt32 (int a * 2 ^ 24 + int b * 2 ^ 16 + int c * 2 ^ 8) + int d))"
proof -
  let ?f = "\<lambda>x y. js_add (Num (js_shl (int_of_jsnum x) 8)) y"
  have 1: "?f (Num (int a)) (Num (int b)) = Num (int a * 256 + int b)"
    using assms by (intro ipToInt_step) simp_all
  have 2: "?f (Num (int a * 256 + int b)) (Num (int c)) = Num ((int a * 256 + int b) * 256 + int c)"
    using assms by (intro ipToInt_step) simp_all
  have i: "ToInt32 ((int a * 256 + int b) * 256 + int c) = (int a * 256 + int b) * 256 + int c"
    using assms by (intro ToInt32_id) simp_all
  have e: "((int a * 256 + int b) * 256 + int c) * 2 ^ (8 mod 32)
        = int a * 2 ^ 24 + int b * 2 ^ 16 + int c * 2 ^ 8" by simp
  have 3: "?f (Num ((int a * 256 + int b) * 256 + int c)) (Num (int d))
      = Num (ToInt32 (int a * 2 ^ 24 + int b * 2 ^ 16 + int c * 2 ^ 8) + int d)"
  proof -
    have r: "- (2 ^ 31) \<le> ToInt32 (int a * 2 ^ 24 + int b * 2 ^ 16 + int c * 2 ^ 8)"
      "ToInt32 (int a * 2 ^ 24 + int b * 2 ^ 16 + int c * 2 ^ 8) < 2 ^ 31"
      using ToInt32_range[of "int a * 2 ^ 24 + int b * 2 ^ 16 + int c * 2 ^ 8"] by simp_all
    have "\<bar>ToInt32 (int a * 2 ^ 24 + int b * 2 ^ 16 + int c * 2 ^ 8) + int d\<bar> \<le> 2 ^ 53"
      using r assms(4) by simp
    then have "js_add (Num (ToInt32 (int a * 2 ^ 24 + int b * 2 ^ 16 + int c * 2 ^ 8))) (Num (int d))
        = Num (ToInt32 (int a * 2 ^ 24 + int b * 2 ^ 16 + int c * 2 ^ 8) + int d)"
      by (rule js_add_Num)
    then show ?thesis
      unfolding js_shl_def int_of_jsnum_def jsnum.case i e .
  qed
  have "foldl ?f (Num (int a)) [Num (int b), Num (int c), Num (int d)]
      = Num (ToInt32 (int a * 2 ^ 24 + int b * 2 ^ 16 + int c * 2 ^ 8) + int d)"
    by (simp only: foldl.simps 1 2 3)
  then show ?thesis
    unfolding ipToInt_def split_quad reduce_def
    by (simp only: list.map Number_js_octet[OF assms(1)] Number_js_octet[OF assms(2)]
        Number_js_octet[OF assms(3)] Number_js_octet[OF assms(4)] list.case)
qed

lemma quad_value:
  assumes "a < 256" "b < 256" "c < 256" "d < 256"
  shows "ToInt32 (int a * 2 ^ 24 + int b * 2 ^ 16 + int c * 2 ^ 8) + int d
     = (if a < 128 then int a * 2 ^ 24 + int b * 2 ^ 16 + int c * 2 ^ 8 + int d
        else int a * 2 ^ 24 + int b * 2 ^ 16 + int c * 2 ^ 8 + int d - 2 ^ 32)"
proof (cases "a < 128")
  case True
  then have "ToInt32 (int a * 2 ^ 24 + int b * 2 ^ 16 + int c * 2 ^ 8)
      = int a * 2 ^ 24 + int b * 2 ^ 16 + int c * 2 ^ 8"
    using assms by (intro ToInt32_id) simp_all
  with True show ?thesis by simp
next
  case False
  then have "ToInt32 (int a * 2 ^ 24 + int b * 2 ^ 16 + int c * 2 ^ 8)
      = int a * 2 ^ 24 + int b * 2 ^ 16 + int c * 2 ^ 8 - 2 ^ 32"
    using assms by (intro ToInt32_hi) simp_all
  with False show ?thesis by simp
qed


subsection \<open>Octets of an address\<close>

lemma js_and_255:
  assumes "- (2 ^ 31) \<le> x" "x < 2 ^ 31"
  shows "js_and x 255 = x mod 256"
proof -
  have "ToInt32 255 = 255" by (simp add: ToInt32_def)
  then show ?thesis using assms by (simp add: js_and_def ToInt32_id and_255)
qed

lemma js_sshr_octet:
  assumes "s \<le> 24"
  shows "js_and (js_sshr n s) 255 = (n mod 2 ^ (8 + s)) div 2 ^ s"
proof -
  let ?m = "ToInt32 n"
  have s: "s mod 32 = s" using assms by simp
  have r: "- (2 ^ 31) \<le> ?m div 2 ^ s" "?m div 2 ^ s < 2 ^ 31"
    using div_pow2_range[of ?m s] ToInt32_range[of n] by simp_all
  have "js_and (js_sshr n s) 255 = (?m div 2 ^ s) mod 256"
    unfolding js_sshr_def s using r by (rule js_and_255)
  also have "\<dots> = take_bit 8 (drop_bit s ?m)"
    by (simp add: take_bit_int_def drop_bit_int_def)
  also have "\<dots> = drop_bit s (take_bit (8 + s) ?m)"
    by (simp add: take_bit_drop_bit)
  also have "\<dots> = (?m mod 2 ^ (8 + s)) div 2 ^ s"
    by (simp add: take_bit_int_def drop_bit_int_def)
  also have "\<dots> = (n mod 2 ^ (8 + s)) div 2 ^ s"
    using assms by (simp add: ToInt32_mod_pow2)
  finally show ?thesis .
qed

lemma js_and_octet: "js_and n 255 = n mod 256"
proof -
  have "js_and n 255 = ToInt32 n mod 256"
    using ToInt32_range[of n] by (simp add: js_and_255 ToInt32_id js_and_def and_255 ToInt32_def)
  also have "\<dots> = n mod 2 ^ 8" using ToInt32_mod_pow2[of 8 n] by simp
  finally show ?thesis by simp
qed

lemma js_ushr_octet: "js_ushr n 24 = (n mod 2 ^ 32) div 2 ^ 24"
  by (simp add: js_ushr_def ToUint32_def)

text \<open>The four octets of a 32-bit pattern whatever its sign.\<close>

lemma octets_of_value:
  fixes a b c d :: nat and j :: int
  assumes "a < 256" "b < 256" "c < 256" "d < 256"
  defines "v \<equiv> int a * 2 ^ 24 + int b * 2 ^ 16 + int c * 2 ^ 8 + int d"
  shows "(v + j * 2 ^ 32) mod 2 ^ 32 div 2 ^ 24 = int a"
    and "(v + j * 2 ^ 32) mod 2 ^ 24 div 2 ^ 16 = int b"
    and "(v + j * 2 ^ 32) mod 2 ^ 16 div 2 ^ 8 = int c"
    and "(v + j * 2 ^ 32) mod 2 ^ 8 = int d"
proof -
  have v32: "(v + j * 2 ^ 32) mod 2 ^ 32 = v"
    using assms(1-4) unfolding v_def by (simp add: mod_pos_pos_trivial)
  have "v + j * 2 ^ 32 = (j * 256 + int a) * 2 ^ 24 + (int b * 2 ^ 16 + int c * 2 ^ 8 + int d)"
    unfolding v_def by simp
  then have v24: "(v + j * 2 ^ 32) mod 2 ^ 24 = int b * 2 ^ 16 + int c * 2 ^ 8 + int d"
    using assms(1-4) by (simp only: mod_mult_self3) (simp add: mod_pos_pos_trivial)
  have "v + j * 2 ^ 32 = (j * 65536 + int a * 256 + int b) * 2 ^ 16 + (int c * 2 ^ 8 + int d)"
    unfolding v_def by simp
  then have v16: "(v + j * 2 ^ 32) mod 2 ^ 16 = int c * 2 ^ 8 + int d"
    using assms(1-4) by (simp only: mod_mult_self3) (simp add: mod_pos_pos_trivial)
  have "v + j * 2 ^ 32 = (j * 16777216 + int a * 65536 + int b * 256 + int c) * 2 ^ 8 + int d"
    unfolding v_def by simp
  then show "(v + j * 2 ^ 32) mod 2 ^ 8 = int d"
    using assms(1-4) by (simp only: mod_mult_self3) (simp add: mod_pos_pos_trivial)
  show "(v + j * 2 ^ 32) mod 2 ^ 32 div 2 ^ 24 = int a"
    unfolding v32 using assms(1-4) unfolding v_def by (simp add: div_pos_pos_trivial)
  show "(v + j * 2 ^ 32) mod 2 ^ 24 div 2 ^ 16 = int b"
    unfolding v24 using assms(1-4) by (simp add: div_pos_pos_trivial)
  show "(v + j * 2 ^ 32) mod 2 ^ 16 div 2 ^ 8 = int c"
    unfolding v16 using assms(1-4) by (simp add: div_pos_pos_trivial)
qed

lemma js_toString_nat: "js_toString (int n) = show_nat n"
  by (simp add: js_toString_def)

lemma intToIp_quad:
  fixes a b c d :: nat and j :: int
  assumes "a < 256" "b < 256" "c < 256" "d < 256"
  shows "intToIp (int a * 2 ^ 24 + int b * 2 ^ 16 + int c * 2 ^ 8 + int d + j * 2 ^ 32)
     = show_nat a @ ''.'' @ show_nat b @ ''.'' @ show_nat c @ ''.'' @ show_nat d"
proof -
  let ?n = "int a * 2 ^ 24 + int b * 2 ^ 16 + int c * 2 ^ 8 + int d + j * 2 ^ 32"
  note o = octets_of_value[OF assms, of j]
  have 1: "js_ushr ?n 24 = int a" unfolding js_ushr_octet by (rule o(1))
  have 2: "js_and (js_sshr ?n 16) 255 = int b"
    using js_sshr_octet[of 16 ?n] o(2) by simp
  have 3: "js_and (js_sshr ?n 8) 255 = int c"
    using js_sshr_octet[of 8 ?n] o(3) by simp
  have 4: "js_and ?n 255 = int d"
    using js_and_octet[of ?n] o(4) by simp
  show ?thesis
    unfolding intToIp_def 1 2 3 4
    by (simp add: js_toString_nat)
qed


subsection \<open>Parsing a range\<close>

text \<open>
  C3 (as stated, refuted): \<open>parseCIDR\<close> does not fail for a base with three octets, with
  five octets, or with an octet above 255: each of these is accepted and given bounds.
\<close>

theorem parseCIDR_accepts_malformed_base:
  "parseCIDR ''1.2.3/24'' = Inr \<lparr>first = 66048, last = 66303\<rparr> \<and>
   parseCIDR ''1.2.3.4.5/24'' = Inr \<lparr>first = 33752064, last = 33752319\<rparr> \<and>
   parseCIDR ''999.1.1.1/24'' = Inr \<lparr>first = 3875602688, last = 3875602943\<rparr>"
  by code_simp

text \<open>
  C3 (amended): text without a \<open>/\<close> is rejected; for text \<open>base/bitsStr\<close> the parse fails
  exactly when the base is empty or \<open>parseInt\<close> of the prefix text is \<open>NaN\<close>, negative or
  above 32. The octets of the base are not validated: every non-empty base is accepted.
\<close>

theorem parseCIDR_fails_iff:
  assumes "CHR ''/'' \<notin> set base" and "CHR ''/'' \<notin> set bitsStr"
  shows "parseCIDR base = Inl (BadCIDR base) \<and>
    ((\<exists>e. parseCIDR (base @ ''/'' @ bitsStr) = Inl e) \<longleftrightarrow>
       (base = [] \<or> (case parseInt (Some bitsStr) of None \<Rightarrow> True | Some b \<Rightarrow> b < 0 \<or> 32 < b)))"
proof
  show "parseCIDR base = Inl (BadCIDR base)"
    using assms(1) by (simp add: parseCIDR_def split_on_no_sep parseInt_def)
next
  obtain v where v: "ipToInt base = Inr v" using ipToInt_total by blast
  show "(\<exists>e. parseCIDR (base @ ''/'' @ bitsStr) = Inl e) \<longleftrightarrow>
       (base = [] \<or> (case parseInt (Some bitsStr) of None \<Rightarrow> True | Some b \<Rightarrow> b < 0 \<or> 32 < b))"
    unfolding parseCIDR_def parseCIDR_split[OF assms]
    using v by (auto simp: Let_def split: option.splits)
qed

text \<open>C3 (amended), at the base \<open>1.2.3\<close> with prefix text \<open>24\<close>.\<close>

theorem parseCIDR_fails_iff_witness:
  "CHR ''/'' \<notin> set ''1.2.3'' \<and> CHR ''/'' \<notin> set ''24'' \<and>
   parseCIDR ''1.2.3'' = Inl (BadCIDR ''1.2.3'') \<and> \<not> (\<exists>e. parseCIDR ''1.2.3/24'' = Inl e)"
proof -
  have a: "CHR ''/'' \<notin> set ''1.2.3''" and b: "CHR ''/'' \<notin> set ''24''" by simp_all
  have p: "parseInt (Some ''24'') = Some 24" by code_simp
  show ?thesis using parseCIDR_fails_iff[OF a b] a b p by simp
qed

lemma quad_no_slash:
  "CHR ''/'' \<notin> set (show_nat a @ ''.'' @ show_nat b @ ''.'' @ show_nat c @ ''.'' @ show_nat d)"
  using show_nat_no_sep by simp

lemma quad_not_Nil:
  "show_nat a @ ''.'' @ show_nat b @ ''.'' @ show_nat c @ ''.'' @ show_nat d \<noteq> []"
  by simp

lemma mod_minus_self: "((x::int) - m) mod m = x mod m"
  by (metis mod_diff_right_eq mod_self diff_zero)

lemma quad_ToUint32:
  assumes "a < 256" "b < 256" "c < 256" "d < 256"
  shows "ToUint32 (ToInt32 (int a * 2 ^ 24 + int b * 2 ^ 16 + int c * 2 ^ 8) + int d)
     = int a * 2 ^ 24 + int b * 2 ^ 16 + int c * 2 ^ 8 + int d"
proof -
  let ?v = "int a * 2 ^ 24 + int b * 2 ^ 16 + int c * 2 ^ 8 + int d"
  have v: "?v mod 2 ^ 32 = ?v" using assms by (intro mod_pos_pos_trivial) simp_all
  have "(?v - 2 ^ 32) mod 2 ^ 32 = ?v mod 2 ^ 32"
    by (rule mod_minus_self)
  with v have w: "(?v - 2 ^ 32) mod 2 ^ 32 = ?v" by simp
  show ?thesis
  proof (cases "a < 128")
    case True
    then show ?thesis unfolding quad_value[OF assms] ToUint32_def using v by (simp only: if_True)
  next
    case False
    then show ?thesis unfolding quad_value[OF assms] ToUint32_def using w by (simp only: if_False)
  qed
qed

subsection \<open>Round trip of the address conversions\<close>



lemma show_nat_examples:
  "show_nat 200 = ''200'' \<and> show_nat 10 = ''10'' \<and> show_nat 2 = ''2'' \<and> show_nat 3 = ''3'' \<and>
   show_nat 20 = ''20'' \<and> show_nat 77 = ''77'' \<and> show_nat 30 = ''30''"
  by code_simp


subsection \<open>Network bounds\<close>

text \<open>
  C4: for every dotted-decimal base of four octets in 0..255, aligned or not, and every
  prefix length \<open>p\<close> in 0..32, \<open>parseCIDR\<close> returns \<open>first\<close> and \<open>last\<close> as unsigned 32-bit
  values with \<open>first \<le> last\<close> and \<open>last - first + 1 = 2 ^ (32 - p)\<close>; the base address lies
  between them.
\<close>

theorem parseCIDR_network_bounds:
  fixes a b c d p :: nat
  assumes "a < 256" "b < 256" "c < 256" "d < 256" and p: "p \<le> 32"
  shows "\<exists>r. parseCIDR (show_nat a @ ''.'' @ show_nat b @ ''.'' @ show_nat c @ ''.'' @ show_nat d
                  @ ''/'' @ show_nat p) = Inr r
     \<and> 0 \<le> first r \<and> first r \<le> last r \<and> last r < 2 ^ 32
     \<and> last r - first r + 1 = 2 ^ (32 - p)
     \<and> first r \<le> int a * 2 ^ 24 + int b * 2 ^ 16 + int c * 2 ^ 8 + int d
     \<and> int a * 2 ^ 24 + int b * 2 ^ 16 + int c * 2 ^ 8 + int d \<le> last r"
proof -
  let ?base = "show_nat a @ ''.'' @ show_nat b @ ''.'' @ show_nat c @ ''.'' @ show_nat d"
  let ?v = "int a * 2 ^ 24 + int b * 2 ^ 16 + int c * 2 ^ 8 + int d"
  let ?n = "ToInt32 (int a * 2 ^ 24 + int b * 2 ^ 16 + int c * 2 ^ 8) + int d"
  let ?k = "32 - p"
  let ?r = "\<lparr>first = ?v - ?v mod 2 ^ ?k, last = ?v - ?v mod 2 ^ ?k + 2 ^ ?k - 1\<rparr>"
  have sp: "split_on CHR ''/'' (?base @ ''/'' @ show_nat p) = ?base # show_nat p # []"
    by (rule parseCIDR_split[OF quad_no_slash conjunct2[OF show_nat_no_sep]])
  have u: "ToUint32 (int_of_jsnum (Num ?n)) = ?v"
    using quad_ToUint32[OF assms(1-4)] by (simp add: int_of_jsnum_def)
  have v: "0 \<le> ?v" "?v < 2 ^ 32" using assms(1-4) by simp_all
  have k: "?k \<le> 32" by simp
  have r: "0 \<le> ?v mod 2 ^ ?k" "?v mod 2 ^ ?k < 2 ^ ?k" "?v mod 2 ^ ?k \<le> ?v"
    using v(1) by (simp_all add: zmod_le_nonneg_dividend)
  have room: "?v - ?v mod 2 ^ ?k + 2 ^ ?k \<le> 2 ^ 32" using k v by (rule aligned_room)
  have "parseCIDR (?base @ ''/'' @ show_nat p) = Inr ?r"
    using parseCIDR_bounds[OF sp parseInt_show_nat quad_not_Nil p ipToInt_quad[OF assms(1-4)]]
    unfolding u .
  then have 0: "parseCIDR (show_nat a @ ''.'' @ show_nat b @ ''.'' @ show_nat c @ ''.'' @ show_nat d
                  @ ''/'' @ show_nat p) = Inr ?r"
    by (simp only: append_assoc)
  have 1: "0 \<le> first ?r" using r by simp
  have 2: "first ?r \<le> last ?r" using r by simp
  have 3: "last ?r < 2 ^ 32" using room by simp
  have 4: "last ?r - first ?r + 1 = 2 ^ ?k" by simp
  have 5: "first ?r \<le> ?v" using r by simp
  have 6: "?v \<le> last ?r" using r by simp
  show ?thesis by (rule exI[of _ ?r], intro conjI; fact)
qed

text \<open>C4 at \<open>10.20.30.77/30\<close>, a base that is not network-aligned.\<close>

theorem parseCIDR_network_bounds_witness:
  "(10::nat) < 256 \<and> (20::nat) < 256 \<and> (30::nat) < 256 \<and> (77::nat) < 256 \<and> (30::nat) \<le> 32 \<and>
   (\<exists>r. parseCIDR ''10.20.30.77/30'' = Inr r \<and> 0 \<le> first r \<and> first r \<le> last r
      \<and> last r < 2 ^ 32 \<and> last r - first r + 1 = 2 ^ (32 - 30)
      \<and> first r \<le> 169090637 \<and> 169090637 \<le> last r)"
  using parseCIDR_network_bounds[of 10 20 30 77 30]
  by (simp add: show_nat_examples)


subsection \<open>Sub-blocks of a range\<close>

lemma blocks_loop_eq:
  "blocks_loop b e = map (\<lambda>i. js_ushr (b + 256 * int i) 0) [0..<nat ((e - b) div 256 + 1)]"
proof (induction b e rule: blocks_loop.induct)
  case (1 b e)
  show ?case
  proof (cases "b \<le> e")
    case True
    define n where "n = nat ((e - (b + 256)) div 256 + 1)"
    have d: "(e - b) div 256 = (e - (b + 256)) div 256 + 1"
    proof -
      have "e - b = (e - (b + 256)) + 1 * 256" by simp
      then have "(e - b) div 256 = ((e - (b + 256)) + 1 * 256) div 256" by simp
      also have "\<dots> = 1 + (e - (b + 256)) div 256" by (rule div_mult_self1) simp
      finally show ?thesis by simp
    qed
    have "0 \<le> (e - b) div 256" using True by (simp add: pos_imp_zdiv_nonneg_iff)
    then have n: "nat ((e - b) div 256 + 1) = Suc n" unfolding n_def d by simp
    have "blocks_loop b e = js_ushr b 0 # blocks_loop (b + 256) e"
      using True by (subst blocks_loop.simps) simp
    also have "blocks_loop (b + 256) e = map (\<lambda>i. js_ushr (b + 256 + 256 * int i) 0) [0..<n]"
      using 1[OF True] by (simp add: n_def)
    also have "js_ushr b 0 # map (\<lambda>i. js_ushr (b + 256 + 256 * int i) 0) [0..<n]
        = map (\<lambda>i. js_ushr (b + 256 * int i) 0) [0..<Suc n]"
      by (simp add: upt_conv_Cons map_Suc_upt[symmetric] algebra_simps del: upt_Suc)
    finally show ?thesis by (simp only: n)
  next
    case False
    then have "(e - b) div 256 < 0" by (simp add: div_neg_pos_less0)
    then have "nat ((e - b) div 256 + 1) = 0" by simp
    moreover have "blocks_loop b e = []" using False by (subst blocks_loop.simps) simp
    ultimately show ?thesis by simp
  qed
qed

lemma parseCIDR_quad:
  fixes a b c d p :: nat
  assumes "a < 256" "b < 256" "c < 256" "d < 256" and p: "p \<le> 32"
  defines "v \<equiv> int a * 2 ^ 24 + int b * 2 ^ 16 + int c * 2 ^ 8 + int d"
  shows "parseCIDR (show_nat a @ ''.'' @ show_nat b @ ''.'' @ show_nat c @ ''.'' @ show_nat d
                  @ ''/'' @ show_nat p)
     = Inr \<lparr>first = v - v mod 2 ^ (32 - p), last = v - v mod 2 ^ (32 - p) + 2 ^ (32 - p) - 1\<rparr>"
proof -
  let ?base = "show_nat a @ ''.'' @ show_nat b @ ''.'' @ show_nat c @ ''.'' @ show_nat d"
  let ?n = "ToInt32 (int a * 2 ^ 24 + int b * 2 ^ 16 + int c * 2 ^ 8) + int d"
  have sp: "split_on CHR ''/'' (?base @ ''/'' @ show_nat p) = ?base # show_nat p # []"
    by (rule parseCIDR_split[OF quad_no_slash conjunct2[OF show_nat_no_sep]])
  have u: "ToUint32 (int_of_jsnum (Num ?n)) = v"
    unfolding v_def using quad_ToUint32[OF assms(1-4)] by (simp add: int_of_jsnum_def)
  have "parseCIDR (?base @ ''/'' @ show_nat p)
      = Inr \<lparr>first = v - v mod 2 ^ (32 - p), last = v - v mod 2 ^ (32 - p) + 2 ^ (32 - p) - 1\<rparr>"
    using parseCIDR_bounds[OF sp parseInt_show_nat quad_not_Nil p ipToInt_quad[OF assms(1-4)]]
    unfolding u .
  then show ?thesis by (simp only: append_assoc)
qed

lemma js_and_ffffff00: "js_and x 4294967040 = ToInt32 x - x mod 256"
proof -
  have "ToInt32 4294967040 = - 256" by (simp add: ToInt32_def)
  moreover have "ToInt32 x mod 256 = x mod 256" using ToInt32_mod_pow2[of 8 x] by simp
  ultimately show ?thesis by (simp add: js_and_def and_ffffff00)
qed

lemma aligned_room_31:
  assumes "k \<le> 31" "0 \<le> f" "f < 2 ^ 31" "(2::int) ^ k dvd f"
  shows "f + 2 ^ k \<le> 2 ^ 31"
proof -
  have "(2::int) ^ k dvd 2 ^ 31" using assms(1) by (rule le_imp_power_dvd)
  then have "(2::int) ^ k dvd 2 ^ 31 - f" using assms(4) by (rule dvd_diff)
  moreover have "0 < 2 ^ 31 - f" using assms(3) by simp
  ultimately have "(2::int) ^ k \<le> 2 ^ 31 - f" by (rule zdvd_imp_le)
  then show ?thesis by linarith
qed

lemma same_half:
  assumes "k \<le> 31" "0 \<le> f" "f + 2 ^ k \<le> 2 ^ 32" "(2::int) ^ k dvd f"
  defines "w \<equiv> (if f < 2 ^ 31 then 0 else 2 ^ 32)"
  shows "ToInt32 f = f - w" and "ToInt32 (f + 2 ^ k - 1) = f + 2 ^ k - 1 - w"
proof -
  have pos: "(1::int) \<le> 2 ^ k" by simp
  show "ToInt32 f = f - w"
  proof (cases "f < 2 ^ 31")
    case True
    then show ?thesis using assms(2) by (simp add: w_def ToInt32_id)
  next
    case False
    then have "2 ^ 31 \<le> f" "f < 2 ^ 32" using assms(3) pos by linarith+
    then have "ToInt32 f = f - 2 ^ 32" by (rule ToInt32_hi)
    then show ?thesis using False by (simp add: w_def)
  qed
  show "ToInt32 (f + 2 ^ k - 1) = f + 2 ^ k - 1 - w"
  proof (cases "f < 2 ^ 31")
    case True
    then have "f + 2 ^ k \<le> 2 ^ 31" using assms(1,2,4) by (intro aligned_room_31)
    then have "ToInt32 (f + 2 ^ k - 1) = f + 2 ^ k - 1"
      using assms(2) pos by (intro ToInt32_id) linarith+
    then show ?thesis using True by (simp add: w_def)
  next
    case False
    then have "2 ^ 31 \<le> f + 2 ^ k - 1" "f + 2 ^ k - 1 < 2 ^ 32" using assms(3) pos by linarith+
    then have "ToInt32 (f + 2 ^ k - 1) = f + 2 ^ k - 1 - 2 ^ 32" by (rule ToInt32_hi)
    then show ?thesis using False by (simp add: w_def)
  qed
qed

text \<open>
  For prefix lengths 1 to 32 the first and last address lie in the same half of the
  address space, the signed \<open>&\<close> shifts both by the same amount, and \<open>list24Blocks\<close> returns
  every partition start from the aligned first to the aligned last address: a list that is
  not empty and has \<open>(align(last) - align(first)) / 256 + 1\<close> elements.
\<close>

lemma list24Blocks_prefix_pos:
  fixes a b c d p :: nat
  assumes "a < 256" "b < 256" "c < 256" "d < 256" and p: "1 \<le> p" "p \<le> 32"
  defines "v \<equiv> int a * 2 ^ 24 + int b * 2 ^ 16 + int c * 2 ^ 8 + int d"
  defines "f \<equiv> v - v mod 2 ^ (32 - p)"
  defines "l \<equiv> v - v mod 2 ^ (32 - p) + 2 ^ (32 - p) - 1"
  shows "list24Blocks (show_nat a @ ''.'' @ show_nat b @ ''.'' @ show_nat c @ ''.'' @ show_nat d
                  @ ''/'' @ show_nat p)
     = Inr (map (\<lambda>i. f - f mod 256 + 256 * int i)
              [0..<nat ((l - l mod 256 - (f - f mod 256)) div 256 + 1)])"
    and "0 < nat ((l - l mod 256 - (f - f mod 256)) div 256 + 1)"
proof -
  let ?k = "32 - p"
  have k: "?k \<le> 31" "?k \<le> 32" using p by simp_all
  have v: "0 \<le> v" "v < 2 ^ 32" using assms(1-4) by (simp_all add: v_def)
  have f0: "0 \<le> f" unfolding f_def using v(1) by (simp add: zmod_le_nonneg_dividend)
  have room: "f + 2 ^ ?k \<le> 2 ^ 32" unfolding f_def using k(2) v by (rule aligned_room)
  have dv: "(2::int) ^ ?k dvd f" unfolding f_def by (simp add: dvd_minus_mod)
  have l: "l = f + 2 ^ ?k - 1" by (simp add: l_def f_def)
  define w :: int where "w = (if f < 2 ^ 31 then 0 else 2 ^ 32)"
  have h: "ToInt32 f = f - w" "ToInt32 l = l - w"
    using same_half[OF k(1) f0 room dv] unfolding l w_def by simp_all
  have w256: "w mod 256 = 0" "256 dvd w" by (simp_all add: w_def)
  have fl: "f \<le> l" unfolding l by simp
  have l32: "l < 2 ^ 32" unfolding l using room by simp
  let ?F = "f - f mod 256" and ?L = "l - l mod 256"
  have FL: "?F \<le> ?L"
  proof -
    have "f div 256 \<le> l div 256" using fl by (rule zdiv_mono1) simp
    moreover have "?F = 256 * (f div 256)" "?L = 256 * (l div 256)"
      by (simp_all add: minus_mod_eq_mult_div)
    ultimately show ?thesis by simp
  qed
  have F0: "0 \<le> ?F" using f0 by (simp add: zmod_le_nonneg_dividend)
  have Ll: "?L \<le> l" by simp
  have st: "js_and f 4294967040 = ?F - w" using h(1) by (simp add: js_and_ffffff00)
  have en: "js_and l 4294967040 = ?L - w" using h(2) by (simp add: js_and_ffffff00)
  let ?n = "nat ((?L - ?F) div 256 + 1)"
  have n: "0 < ?n" using FL by (simp add: pos_imp_zdiv_nonneg_iff)
  have dvL: "256 dvd ?L - ?F" by (simp add: dvd_minus_mod dvd_diff)
  have m: "map (\<lambda>i. js_ushr (?F - w + 256 * int i) 0) [0..<?n]
      = map (\<lambda>i. ?F + 256 * int i) [0..<?n]"
  proof (rule map_cong[OF refl])
    fix i assume "i \<in> set [0..<?n]"
    then have "int i \<le> (?L - ?F) div 256" by auto
    then have "256 * int i \<le> 256 * ((?L - ?F) div 256)" by (simp only: mult_le_cancel_left_pos)
    also have "\<dots> = ?L - ?F" using dvL by (rule dvd_mult_div_cancel)
    finally have ub: "?F + 256 * int i \<le> ?L" by linarith
    have r: "0 \<le> ?F + 256 * int i" "?F + 256 * int i < 2 ^ 32"
      using F0 ub Ll l32 by linarith+
    have "ToUint32 (?F - w + 256 * int i) = ToUint32 (?F + 256 * int i)"
    proof (cases "f < 2 ^ 31")
      case True
      then show ?thesis by (simp add: w_def)
    next
      case False
      then have "?F - w + 256 * int i = (?F + 256 * int i) - 2 ^ 32" by (simp add: w_def)
      then show ?thesis unfolding ToUint32_def by (simp only: mod_minus_self)
    qed
    also have "\<dots> = ?F + 256 * int i" using r by (rule ToUint32_id)
    finally show "js_ushr (?F - w + 256 * int i) 0 = ?F + 256 * int i" by (simp add: js_ushr_0)
  qed
  have "(?L - w - (?F - w)) = ?L - ?F" by simp
  then have "blocks_loop (?F - w) (?L - w) = map (\<lambda>i. ?F + 256 * int i) [0..<?n]"
    unfolding blocks_loop_eq using m by (simp only:)
  then show "list24Blocks (show_nat a @ ''.'' @ show_nat b @ ''.'' @ show_nat c @ ''.'' @ show_nat d
                  @ ''/'' @ show_nat p)
     = Inr (map (\<lambda>i. ?F + 256 * int i) [0..<?n])"
    unfolding list24Blocks_def
      parseCIDR_quad[OF assms(1-4) p(2), folded v_def, folded f_def l_def]
    by (simp add: st en Let_def)
  show "0 < ?n" by (rule n)
qed

text \<open>
  C2 at \<open>0.0.0.0/0\<close>: the bounds are 0 and 4294967295, the signed \<open>&\<close> turns the aligned
  end into \<open>-256\<close>, which is below the aligned start 0, and the loop pushes nothing: the
  list of sub-blocks is empty.
\<close>

theorem list24Blocks_whole_space_empty:
  "parseCIDR ''0.0.0.0/0'' = Inr \<lparr>first = 0, last = 4294967295\<rparr> \<and>
   list24Blocks ''0.0.0.0/0'' = Inr []"
  by code_simp


subsection \<open>Sampling offsets\<close>

lemma candidates_eq: "candidates = [10, 42, 77, 99, 123, 150, 180, 200, 220, 240]"
  by (simp add: candidates_def)

lemma length_candidates: "length candidates = 10"
  by (simp add: candidates_eq)

lemma candidates_range:
  assumes "j < 10"
  shows "10 \<le> candidates ! j \<and> candidates ! j \<le> 240"
proof -
  have "\<forall>x \<in> set candidates. 10 \<le> x \<and> x \<le> 240" by (simp add: candidates_eq)
  moreover have "candidates ! j \<in> set candidates" using assms by (simp add: length_candidates)
  ultimately show ?thesis by blast
qed

lemma js_rem_nonneg: "0 \<le> a \<Longrightarrow> 0 < b \<Longrightarrow> js_rem a b = a mod b"
  by (cases "a = 0") (simp_all add: js_rem_def)

lemma sample_offset_eq:
  assumes "idx < 2540"
  shows "sample_offset idx = 1 + (candidates ! (idx mod 10) + int (idx div 10) - 1) mod 254"
proof -
  have d: "ToInt32 (int (idx div 10)) = int (idx div 10)"
    using assms by (intro ToInt32_id) simp_all
  have "0 \<le> candidates ! (idx mod 10) + int (idx div 10) - 1"
    using candidates_range[of "idx mod 10"] by simp
  then show ?thesis
    by (simp add: sample_offset_def length_candidates d js_rem_nonneg Let_def)
qed

lemma sample_offset_range:
  assumes "idx < 2540"
  shows "1 \<le> sample_offset idx \<and> sample_offset idx \<le> 254"
proof -
  let ?x = "candidates ! (idx mod 10) + int (idx div 10) - 1"
  have "0 \<le> ?x mod 254" "?x mod 254 < 254" by simp_all
  then show ?thesis unfolding sample_offset_eq[OF assms] by linarith
qed

lemma sample_offset_covers:
  assumes "1 \<le> v" "v \<le> 254"
  shows "\<exists>idx < 2540. sample_offset idx = v"
proof -
  define i where "i = nat ((v - 10) mod 254)"
  have i: "int i = (v - 10) mod 254" "i < 254" by (simp_all add: i_def)
  have lt: "10 * i < 2540" using i(2) by simp
  have "sample_offset (10 * i) = 1 + (10 + int i - 1) mod 254"
    unfolding sample_offset_eq[OF lt] by (simp add: candidates_eq)
  also have "\<dots> = 1 + (9 + (v - 10) mod 254) mod 254" by (simp add: i(1))
  also have "\<dots> = 1 + (9 + (v - 10)) mod 254" by (simp only: mod_add_right_eq)
  also have "\<dots> = v" using assms by simp
  finally show ?thesis using lt by blast
qed

lemma sample_offset_image: "sample_offset ` {..<2540} = {1..254}"
proof
  show "sample_offset ` {..<2540} \<subseteq> {1..254}" using sample_offset_range by auto
  show "{1..254} \<subseteq> sample_offset ` {..<2540}"
  proof
    fix v :: int assume "v \<in> {1..254}"
    then obtain idx where "idx < 2540" "sample_offset idx = v"
      using sample_offset_covers[of v] by auto
    then show "v \<in> sample_offset ` {..<2540}" by auto
  qed
qed

lemma set_set_add: "set (set_add xs x) = insert x (set xs)"
  by (auto simp: set_add_def)

lemma distinct_set_add: "distinct xs \<Longrightarrow> distinct (set_add xs x)"
  by (simp add: set_add_def)

lemma length_set_add: "length xs \<le> length (set_add xs x) \<and> length (set_add xs x) \<le> Suc (length xs)"
  by (simp add: set_add_def)

lemma sample_loop_returns:
  assumes "idx \<le> 2540" "distinct picks" "set picks = sample_offset ` {..<idx}"
    and "int (length picks) \<le> min k 254"
  shows "\<exists>r. sample_loop k idx picks = Some r \<and> distinct r \<and> int (length r) = min k 254
           \<and> set r \<subseteq> {1..254}"
  using assms
proof (induction "2540 - idx" arbitrary: idx picks)
  case 0
  then have idx: "idx = 2540" by simp
  with 0 have all: "set picks = {1..254}" using sample_offset_image by simp
  then have "card (set picks) = 254" by simp
  then have len: "length picks = 254" using 0 distinct_card[of picks] by simp
  then have "min k 254 = 254" using 0(5) by simp
  with len all 0 show ?case
    by (subst sample_loop.simps) simp
next
  case (Suc n)
  then have idx: "idx < 2540" by simp
  have sub: "set picks \<subseteq> {1..254}"
  proof -
    have "sample_offset ` {..<idx} \<subseteq> sample_offset ` {..<2540}" using idx by (intro image_mono) auto
    then show ?thesis using Suc(5) sample_offset_image by simp
  qed
  show ?case
  proof (cases "int (length picks) < min k 254")
    case True
    let ?p = "set_add picks (sample_offset idx)"
    have "n = 2540 - (idx + 1)" using Suc(2) by simp
    moreover have "idx + 1 \<le> 2540" using idx by simp
    moreover have "distinct ?p" using Suc(4) by (rule distinct_set_add)
    moreover have "set ?p = sample_offset ` {..<idx + 1}"
      using Suc(5) by (simp add: set_set_add lessThan_Suc)
    moreover have "int (length ?p) \<le> min k 254"
      using True length_set_add[of picks "sample_offset idx"] by linarith
    ultimately have "\<exists>r. sample_loop k (idx + 1) ?p = Some r \<and> distinct r
        \<and> int (length r) = min k 254 \<and> set r \<subseteq> {1..254}"
      by (rule Suc(1))
    then show ?thesis using True by (subst sample_loop.simps) simp
  next
    case False
    then have "int (length picks) = min k 254" using Suc(6) by linarith
    then show ?thesis using False Suc(4) sub by (subst sample_loop.simps) simp
  qed
qed

lemma slice0_all: "0 \<le> k \<Longrightarrow> int (length xs) \<le> k \<Longrightarrow> slice0 xs k = xs"
  by (simp add: slice0_def)

lemma block_address:
  fixes A B C :: nat and off :: int
  assumes "A < 256" "B < 256" "C < 256" "1 \<le> off" "off \<le> 254"
  shows "intToIp (js_ushr (int A * 2 ^ 24 + int B * 2 ^ 16 + int C * 2 ^ 8 + off) 0)
     = show_nat A @ ''.'' @ show_nat B @ ''.'' @ show_nat C @ ''.'' @ show_nat (nat off)"
proof -
  let ?x = "int A * 2 ^ 24 + int B * 2 ^ 16 + int C * 2 ^ 8 + off"
  have "0 \<le> ?x" "?x < 2 ^ 32" using assms by simp_all
  then have u: "js_ushr ?x 0 = ?x" unfolding js_ushr_0 by (rule ToUint32_id)
  have d: "nat off < 256" "int (nat off) = off" using assms by simp_all
  show ?thesis
    using intToIp_quad[OF assms(1-3) d(1), of 0] unfolding u d(2) by simp
qed

text \<open>
  C5: for every sub-block (a 32-bit value \<open>A.B.C.0\<close>) and every \<open>k \<ge> 1\<close> the loop of
  \<open>sampleIPsIn24\<close> ends, and the result is the list of addresses \<open>A.B.C.off\<close> for
  \<open>min k 254\<close> offsets that are pairwise distinct and lie in 1..254. The offsets are the
  value of \<open>sample_loop k 0 []\<close>: they depend on \<open>k\<close> only, and nothing but the two
  arguments enters the result, so equal calls give equal sequences.
\<close>

theorem sampleIPsIn24_offsets:
  fixes A B C :: nat and k :: int
  assumes "A < 256" "B < 256" "C < 256" and k: "1 \<le> k"
  shows "\<exists>offs. sample_loop k 0 [] = Some offs
     \<and> sampleIPsIn24 (int A * 2 ^ 24 + int B * 2 ^ 16 + int C * 2 ^ 8) k
         = Some (map (\<lambda>off. show_nat A @ ''.'' @ show_nat B @ ''.'' @ show_nat C @ ''.'' @ show_nat (nat off)) offs)
     \<and> int (length offs) = min k 254 \<and> distinct offs \<and> set offs \<subseteq> {1..254}"
proof -
  have "\<exists>r. sample_loop k 0 [] = Some r \<and> distinct r \<and> int (length r) = min k 254
           \<and> set r \<subseteq> {1..254}"
    using k by (intro sample_loop_returns) simp_all
  then obtain offs where l: "sample_loop k 0 [] = Some offs" and d: "distinct offs"
    and n: "int (length offs) = min k 254" and s: "set offs \<subseteq> {1..254}" by blast
  have sl: "slice0 offs k = offs" using k n by (intro slice0_all) simp_all
  have m: "map (\<lambda>off. intToIp (js_ushr (int A * 2 ^ 24 + int B * 2 ^ 16 + int C * 2 ^ 8 + off) 0)) offs
      = map (\<lambda>off. show_nat A @ ''.'' @ show_nat B @ ''.'' @ show_nat C @ ''.'' @ show_nat (nat off)) offs"
  proof (rule map_cong[OF refl])
    fix off assume "off \<in> set offs"
    with s have "1 \<le> off" "off \<le> 254" by auto
    with assms(1-3)
    show "intToIp (js_ushr (int A * 2 ^ 24 + int B * 2 ^ 16 + int C * 2 ^ 8 + off) 0)
       = show_nat A @ ''.'' @ show_nat B @ ''.'' @ show_nat C @ ''.'' @ show_nat (nat off)"
      by (rule block_address)
  qed
  have "sampleIPsIn24 (int A * 2 ^ 24 + int B * 2 ^ 16 + int C * 2 ^ 8) k
         = Some (map (\<lambda>off. show_nat A @ ''.'' @ show_nat B @ ''.'' @ show_nat C @ ''.'' @ show_nat (nat off)) offs)"
    unfolding sampleIPsIn24_def l using m by (simp add: sl)
  with l n d s show ?thesis by (intro exI[of _ offs] conjI)
qed

text \<open>C5 at the sub-block \<open>10.20.30.0\<close> with \<open>k = 3\<close>.\<close>

theorem sampleIPsIn24_offsets_witness:
  "(10::nat) < 256 \<and> (20::nat) < 256 \<and> (30::nat) < 256 \<and> (1::int) \<le> 3 \<and>
   (\<exists>offs. sample_loop 3 0 [] = Some offs
     \<and> sampleIPsIn24 169090560 3 = Some (map (\<lambda>off. ''10.20.30.'' @ show_nat (nat off)) offs)
     \<and> int (length offs) = 3 \<and> distinct offs \<and> set offs \<subseteq> {1..254})"
  using sampleIPsIn24_offsets[of 10 20 30 3]
  by (simp add: show_nat_examples)


subsection \<open>Sample targets\<close>

lemma sampleIPsIn24_length:
  assumes "1 \<le> k"
  shows "\<exists>picks. sampleIPsIn24 b k = Some picks \<and> int (length picks) = min k 254"
proof -
  have "\<exists>r. sample_loop k 0 [] = Some r \<and> distinct r \<and> int (length r) = min k 254
           \<and> set r \<subseteq> {1..254}"
    using assms by (intro sample_loop_returns) simp_all
  then obtain offs where l: "sample_loop k 0 [] = Some offs"
    and n: "int (length offs) = min k 254" by blast
  have "slice0 offs k = offs" using assms n by (intro slice0_all) simp_all
  then show ?thesis using l n by (simp add: sampleIPsIn24_def)
qed

lemma push_sampleTargets_blocks:
  assumes "1 \<le> k"
  shows "\<exists>ts. push_sampleTargets blocks k = Some ts
     \<and> map block ts = concat (map (replicate (nat (min k 254))) blocks)"
proof (induction blocks)
  case Nil
  show ?case by simp
next
  case (Cons b bs)
  then obtain rest where r: "push_sampleTargets bs k = Some rest"
    "map block rest = concat (map (replicate (nat (min k 254))) bs)" by blast
  obtain picks where p: "sampleIPsIn24 b k = Some picks" "int (length picks) = min k 254"
    using sampleIPsIn24_length[OF assms] by blast
  have "map block (map (\<lambda>i. \<lparr>block = b, ip = i\<rparr>) picks) = replicate (length picks) b"
    by (simp add: map_replicate_const comp_def)
  moreover have "length picks = nat (min k 254)" using p(2) by simp
  ultimately show ?case using r p(1) by simp
qed

text \<open>
  C1 (as stated, refuted): the ranges \<open>10.0.0.0/24\<close> and \<open>10.0.0.0/25\<close> both yield the
  sub-block 167772160, and with three samples per block the sample-target list holds six
  targets for it: one group of three for each contributing range.
\<close>

theorem sampleTargets_duplicate_block:
  "list24Blocks ''10.0.0.0/24'' = Inr [167772160] \<and>
   list24Blocks ''10.0.0.0/25'' = Inr [167772160] \<and>
   runSmartScan_sampleTargets [''10.0.0.0/24'', ''10.0.0.0/25''] 3 = Some (Inr [
     \<lparr>block = 167772160, ip = ''10.0.0.10''\<rparr>, \<lparr>block = 167772160, ip = ''10.0.0.42''\<rparr>,
     \<lparr>block = 167772160, ip = ''10.0.0.77''\<rparr>, \<lparr>block = 167772160, ip = ''10.0.0.10''\<rparr>,
     \<lparr>block = 167772160, ip = ''10.0.0.42''\<rparr>, \<lparr>block = 167772160, ip = ''10.0.0.77''\<rparr>])"
  by code_simp

text \<open>
  C1 (amended): when every range parses and the concatenated block list \<open>blocks\<close> is not
  empty, the sample-target list holds, in order, one group of \<open>min k 254\<close> targets for
  every element of \<open>blocks\<close>, repeated elements included.
\<close>

theorem sampleTargets_per_occurrence:
  assumes "flatMap_list24Blocks cidrs = Inr blocks" and "blocks \<noteq> []" and "1 \<le> k"
  shows "\<exists>ts. runSmartScan_sampleTargets cidrs k = Some (Inr ts)
     \<and> map block ts = concat (map (replicate (nat (min k 254))) blocks)
     \<and> length ts = length blocks * nat (min k 254)"
proof -
  obtain ts where t: "push_sampleTargets blocks k = Some ts"
    "map block ts = concat (map (replicate (nat (min k 254))) blocks)"
    using push_sampleTargets_blocks[OF assms(3)] by blast
  have "length (map block ts) = length blocks * nat (min k 254)"
    unfolding t(2) by (induction blocks) simp_all
  then have "length ts = length blocks * nat (min k 254)" by simp
  moreover have "runSmartScan_sampleTargets cidrs k = Some (Inr ts)"
    using assms(1,2) t(1) by (simp add: runSmartScan_sampleTargets_def)
  ultimately show ?thesis using t(2) by blast
qed

text \<open>C1 (amended) at the two overlapping ranges above.\<close>

theorem sampleTargets_per_occurrence_witness:
  "flatMap_list24Blocks [''10.0.0.0/24'', ''10.0.0.0/25''] = Inr [167772160, 167772160] \<and>
   [167772160, 167772160] \<noteq> ([] :: int list) \<and> (1::int) \<le> 3 \<and>
   (\<exists>ts. runSmartScan_sampleTargets [''10.0.0.0/24'', ''10.0.0.0/25''] 3 = Some (Inr ts)
     \<and> map block ts = [167772160, 167772160, 167772160, 167772160, 167772160, 167772160]
     \<and> length ts = 6)"
proof -
  have f: "flatMap_list24Blocks [''10.0.0.0/24'', ''10.0.0.0/25''] = Inr [167772160, 167772160]"
    by code_simp
  have r: "replicate 3 (167772160::int) = [167772160, 167772160, 167772160]"
    by (simp add: numeral_3_eq_3)
  have g: "\<exists>ts. runSmartScan_sampleTargets [''10.0.0.0/24'', ''10.0.0.0/25''] 3 = Some (Inr ts)
     \<and> map block ts = [167772160, 167772160, 167772160, 167772160, 167772160, 167772160]
     \<and> length ts = 6"
    using sampleTargets_per_occurrence[OF f, of 3] by (simp add: r)
  show ?thesis by (intro conjI) (rule f, simp, simp, rule g)
qed


section \<open>Properties of the probes and of Stage B\<close>

lemma resolve_Fulfilled: "resolve v (Fulfilled w) = Fulfilled w"
  by (simp add: resolve_def)

lemma resolve_Pending: "resolve v Pending = Fulfilled v"
  by (simp add: resolve_def)

lemma tcpOpen_settled: "foldl (\<lambda>p ev. tcpOpen_on ev p) (Fulfilled v) evs = Fulfilled v"
  by (induction evs) (simp_all add: tcpOpen_on_def resolve_Fulfilled split: sock_event.splits)

lemma tcpOpen_on_Pending: "tcpOpen_on e Pending = Fulfilled (e = Connect)"
  by (cases e) (simp_all add: tcpOpen_on_def resolve_Pending)

lemma tcpOpen_first:
  "valid_timeout timeout \<Longrightarrow> sock_events addr timeout = e # evs \<Longrightarrow>
     tcpOpen sock_events addr timeout = Fulfilled (e = Connect)"
  by (simp add: tcpOpen_def tcpOpen_on_Pending tcpOpen_settled)

lemma tcpOpen_invalid_timeout: "\<not> valid_timeout timeout \<Longrightarrow> tcpOpen sock_events addr timeout = Rejected"
  by (simp add: tcpOpen_def)

lemma httpHead_settled: "foldl (\<lambda>p ev. httpHead_on ev p) (Fulfilled v) evs = Fulfilled v"
  by (induction evs) (simp_all add: httpHead_on_def resolve_Fulfilled split: http_event.splits)

lemma httpHead_on_Pending: "httpHead_on e Pending = Fulfilled (e = Response)"
  by (cases e) (simp_all add: httpHead_on_def resolve_Pending)

lemma httpHead_first:
  "list_all valid_header_unit hostHeaderVal \<Longrightarrow> valid_timeout timeout \<Longrightarrow>
     request_events addr hostHeaderVal timeout = e # evs \<Longrightarrow>
     httpHead request_events addr hostHeaderVal timeout = Fulfilled (e = Response)"
  by (simp add: httpHead_def httpHead_on_Pending httpHead_settled)

lemma httpHead_invalid_header:
  "\<not> list_all valid_header_unit hostHeaderVal \<Longrightarrow>
     httpHead request_events addr hostHeaderVal timeout = Rejected"
  by (simp add: httpHead_def)

lemma pingOnce_settled:
  "promise st = Fulfilled r \<Longrightarrow>
     promise (foldl (\<lambda>st ev. pingOnce_on pf ev st) st evs) = Fulfilled r"
proof (induction evs arbitrary: st)
  case Nil
  then show ?case by simp
next
  case (Cons ev evs)
  have "promise (pingOnce_on pf ev st) = Fulfilled r"
    using Cons.prems
    by (cases ev) (simp_all add: pingOnce_on_def resolve_Fulfilled split: option.splits)
  then show ?case using Cons.IH by simp
qed

lemma pingOnce_data:
  "list_all is_data pre \<Longrightarrow>
     foldl (\<lambda>st ev. pingOnce_on pf ev st) st pre = st\<lparr>out := out st @ concat (map data_of pre)\<rparr>"
proof (induction pre arbitrary: st)
  case Nil
  then show ?case by simp
next
  case (Cons ev pre)
  then show ?case
    by (cases ev) (simp_all add: pingOnce_on_def is_data_def data_of_def)
qed

lemma pingOnce_on_Close:
  "promise (pingOnce_on pf Close \<lparr>out = text, promise = Pending\<rparr>)
     = Fulfilled (case match_time text of
                    Some g \<Rightarrow> \<lparr>ok = True, ms = Some (pf g)\<rparr>
                  | None \<Rightarrow> \<lparr>ok = False, ms = None\<rparr>)"
  by (simp add: pingOnce_on_def resolve_Pending split: option.splits)

lemma pingOnce_on_ChildError:
  "promise (pingOnce_on pf ChildError \<lparr>out = text, promise = Pending\<rparr>)
     = Fulfilled \<lparr>ok = False, ms = None\<rparr>"
  by (simp add: pingOnce_on_def resolve_Pending)

lemma pingOnce_close:
  assumes "list_all is_data pre" "child_events addr timeout = pre @ Close # rest"
  shows "pingOnce pf child_events addr timeout
     = Fulfilled (case match_time (concat (map data_of pre)) of
                    Some g \<Rightarrow> \<lparr>ok = True, ms = Some (pf g)\<rparr>
                  | None \<Rightarrow> \<lparr>ok = False, ms = None\<rparr>)"
  unfolding pingOnce_def assms(2)
  by (simp add: pingOnce_data[OF assms(1)] pingOnce_settled[OF pingOnce_on_Close])

lemma pingOnce_error:
  assumes "list_all is_data pre" "child_events addr timeout = pre @ ChildError # rest"
  shows "pingOnce pf child_events addr timeout = Fulfilled \<lparr>ok = False, ms = None\<rparr>"
  unfolding pingOnce_def assms(2)
  by (simp add: pingOnce_data[OF assms(1)] pingOnce_settled[OF pingOnce_on_ChildError])

lemma pingOnce_invariant:
  assumes "promise st = Pending \<or> (\<exists>r. promise st = Fulfilled r \<and> (ok r \<longleftrightarrow> ms r \<noteq> None))"
  shows "promise (foldl (\<lambda>st ev. pingOnce_on pf ev st) st evs) = Pending
     \<or> (\<exists>r. promise (foldl (\<lambda>st ev. pingOnce_on pf ev st) st evs) = Fulfilled r
            \<and> (ok r \<longleftrightarrow> ms r \<noteq> None))"
  using assms
proof (induction evs arbitrary: st)
  case Nil
  then show ?case by simp
next
  case (Cons ev evs)
  have "promise (pingOnce_on pf ev st) = Pending
     \<or> (\<exists>r. promise (pingOnce_on pf ev st) = Fulfilled r \<and> (ok r \<longleftrightarrow> ms r \<noteq> None))"
    using Cons.prems
    by (cases ev) (auto simp: pingOnce_on_def resolve_def split: option.splits)
  then show ?case using Cons.IH by simp
qed

lemma pingOnce_result:
  "pingOnce pf child_events addr timeout = Pending
     \<or> (\<exists>r. pingOnce pf child_events addr timeout = Fulfilled r \<and> (ok r \<longleftrightarrow> ms r \<noteq> None))"
  unfolding pingOnce_def by (rule pingOnce_invariant) simp

text \<open>
  C8 fails in the code, in both of its parts. (1) A probe can hand an error to its caller:
  \<open>httpHead\<close> rejects for the host header \<open>U+4F8B . j p\<close> (a code unit above \<open>0xff\<close>),
  whatever the network does, and the task of Stage B that awaits it throws once the port
  is open; \<open>tcpOpen\<close> rejects for the time limit \<open>-5\<close>. (2) A failure does not always give a
  negative outcome: for an address that is unreachable, \<open>ping -c 1\<close> prints no round-trip
  time, yet its summary line ends in \<open>time 0ms\<close>, the pattern matches it, and \<open>pingOnce\<close>
  resolves \<open>{ok: true, ms: parseFloat("0")}\<close>.
\<close>

theorem probes_reject_and_report_unreachable_ok:
  "httpHead request_events ''192.0.2.1'' [20363, 46, 106, 112] (Num 1000) = Rejected
   \<and> stageB_task pf (\<lambda>ip timeout. [Connect]) request_events child_events
        [20363, 46, 106, 112] (Num 1000) ''192.0.2.1'' st = Throws
   \<and> tcpOpen sock_events ''192.0.2.1'' (Num (- 5)) = Rejected
   \<and> pingOnce pf
        (\<lambda>ip timeout.
           [Stdout (''PING 192.0.2.1 (192.0.2.1) 56(84) bytes of data.'' @ [CHR 0x0A]),
            Stdout (''From 10.0.0.1 icmp_seq=1 Destination Net Unreachable'' @ [CHR 0x0A, CHR 0x0A]
                    @ ''--- 192.0.2.1 ping statistics ---'' @ [CHR 0x0A]
                    @ ''1 packets transmitted, 0 received, +1 errors, 100% packet loss, time 0ms''
                    @ [CHR 0x0A]),
            Close])
        ''192.0.2.1'' (Num 1000)
       = Fulfilled \<lparr>ok = True, ms = Some (pf ''0'')\<rparr>"
proof -
  have h: "\<not> list_all valid_header_unit [20363, 46, 106, 112]"
    by (simp add: valid_header_unit_def)
  have a: "httpHead request_events ''192.0.2.1'' [20363, 46, 106, 112] (Num 1000) = Rejected"
    using h by (rule httpHead_invalid_header)
  have t: "tcpOpen (\<lambda>ip timeout. [Connect]) ''192.0.2.1'' (Num 1000) = Fulfilled True"
    by (simp add: tcpOpen_first valid_timeout_def)
  have b: "stageB_task pf (\<lambda>ip timeout. [Connect]) request_events child_events
        [20363, 46, 106, 112] (Num 1000) ''192.0.2.1'' st = Throws"
    by (simp add: stageB_task_def t a)
  have c: "tcpOpen sock_events ''192.0.2.1'' (Num (- 5)) = Rejected"
    by (simp add: tcpOpen_invalid_timeout valid_timeout_def)
  have m: "match_time (concat (map data_of
           [Stdout (''PING 192.0.2.1 (192.0.2.1) 56(84) bytes of data.'' @ [CHR 0x0A]),
            Stdout (''From 10.0.0.1 icmp_seq=1 Destination Net Unreachable'' @ [CHR 0x0A, CHR 0x0A]
                    @ ''--- 192.0.2.1 ping statistics ---'' @ [CHR 0x0A]
                    @ ''1 packets transmitted, 0 received, +1 errors, 100% packet loss, time 0ms''
                    @ [CHR 0x0A])])) = Some ''0''"
    by code_simp
  have d: "list_all is_data
           [Stdout (''PING 192.0.2.1 (192.0.2.1) 56(84) bytes of data.'' @ [CHR 0x0A]),
            Stdout (''From 10.0.0.1 icmp_seq=1 Destination Net Unreachable'' @ [CHR 0x0A, CHR 0x0A]
                    @ ''--- 192.0.2.1 ping statistics ---'' @ [CHR 0x0A]
                    @ ''1 packets transmitted, 0 received, +1 errors, 100% packet loss, time 0ms''
                    @ [CHR 0x0A])]"
    by (simp add: is_data_def)
  note e = pingOnce_close[OF d, where rest = "[]" and pf = pf and addr = "''192.0.2.1''"
      and timeout = "Num 1000", unfolded m option.case]
  have p: "pingOnce pf
        (\<lambda>ip timeout.
           [Stdout (''PING 192.0.2.1 (192.0.2.1) 56(84) bytes of data.'' @ [CHR 0x0A]),
            Stdout (''From 10.0.0.1 icmp_seq=1 Destination Net Unreachable'' @ [CHR 0x0A, CHR 0x0A]
                    @ ''--- 192.0.2.1 ping statistics ---'' @ [CHR 0x0A]
                    @ ''1 packets transmitted, 0 received, +1 errors, 100% packet loss, time 0ms''
                    @ [CHR 0x0A]),
            Close])
        ''192.0.2.1'' (Num 1000)
       = Fulfilled \<lparr>ok = True, ms = Some (pf ''0'')\<rparr>"
    by (rule e) simp
  show ?thesis using a b c p by (intro conjI)
qed

subsection \<open>Stage B\<close>

text \<open>
  C7: when the probes settle, the task of Stage B returns after one progress tick, and it
  appends the entry \<open>(addr, m)\<close> exactly when the TCP probe gave \<open>true\<close>, the HEAD probe
  gave \<open>true\<close> or the host header is empty, and the latency probe gave \<open>ok\<close> (then \<open>m\<close>
  is its \<open>ms\<close>); otherwise \<open>valid\<close> is unchanged. With an empty host header the outcome of
  the HEAD probe is not even required.
\<close>

theorem stageB_valid_iff:
  assumes "tcpOpen sock_events addr timeoutMs = Fulfilled t"
    and "hostHeader = [] \<or> httpHead request_events addr hostHeader timeoutMs = Fulfilled h"
    and "pingOnce pf child_events addr timeoutMs = Fulfilled p"
  shows "\<exists>st'. stageB_task pf sock_events request_events child_events hostHeader timeoutMs addr st
            = Returns st'
     \<and> stageBDone st' = stageBDone st + 1
     \<and> (if t \<and> (hostHeader = [] \<or> h) \<and> ok p
         then \<exists>m. ms p = Some m \<and> valid st' = valid st @ [\<lparr>item_ip = addr, item_ms = m\<rparr>]
         else valid st' = valid st)"
proof -
  have okms: "ok p \<longleftrightarrow> ms p \<noteq> None"
    using pingOnce_result[of pf child_events addr timeoutMs] assms(3) by auto
  show ?thesis
  proof (cases "hostHeader = []")
    case True
    then show ?thesis
      using assms(1,3) okms by (cases "ms p") (auto simp: stageB_task_def)
  next
    case False
    with assms(2) have "httpHead request_events addr hostHeader timeoutMs = Fulfilled h" by simp
    then show ?thesis
      using assms(1,3) okms False by (cases "ms p") (auto simp: stageB_task_def)
  qed
qed

text \<open>C7 with an empty host header: TCP open and ping ok give a valid entry.\<close>

theorem stageB_valid_iff_witness:
  "tcpOpen (\<lambda>ip timeout. [Connect]) ''10.0.0.1'' (Num 1000) = Fulfilled True
   \<and> ([] = ([]::code_units)
        \<or> httpHead (\<lambda>ip host timeout. []) ''10.0.0.1'' [] (Num 1000) = Fulfilled False)
   \<and> pingOnce (\<lambda>g. g) (\<lambda>ip timeout. [Stdout ''time=1.5 ms'', Close]) ''10.0.0.1'' (Num 1000)
        = Fulfilled \<lparr>ok = True, ms = Some ''1.5''\<rparr>
   \<and> (\<exists>st'. stageB_task (\<lambda>g. g) (\<lambda>ip timeout. [Connect]) (\<lambda>ip host timeout. [])
               (\<lambda>ip timeout. [Stdout ''time=1.5 ms'', Close]) [] (Num 1000) ''10.0.0.1''
               \<lparr>valid = [], stageBDone = 0\<rparr> = Returns st'
        \<and> stageBDone st' = 1 \<and> valid st' = [\<lparr>item_ip = ''10.0.0.1'', item_ms = ''1.5''\<rparr>])"
proof -
  have a: "tcpOpen (\<lambda>ip timeout. [Connect]) ''10.0.0.1'' (Num 1000) = Fulfilled True"
    by (simp add: tcpOpen_first valid_timeout_def)
  have b: "[] = ([]::code_units)
        \<or> httpHead (\<lambda>ip host timeout. []) ''10.0.0.1'' [] (Num 1000) = Fulfilled False" by simp
  have c: "pingOnce (\<lambda>g. g) (\<lambda>ip timeout. [Stdout ''time=1.5 ms'', Close]) ''10.0.0.1'' (Num 1000)
        = Fulfilled \<lparr>ok = True, ms = Some ''1.5''\<rparr>"
    by code_simp
  show ?thesis
    using stageB_valid_iff[OF a b c, where st = "\<lparr>valid = [], stageBDone = 0\<rparr>"] a c
    by simp
qed


section \<open>Properties of the completion\<close>

lemma mset_insert_cmp: "mset (insert_cmp cmp x ys) = add_mset x (mset ys)"
  by (induction ys) simp_all

lemma set_insert_cmp: "set (insert_cmp cmp x ys) = insert x (set ys)"
  by (induction ys) auto

lemma sorted_insert_cmp:
  assumes "sorted (map item_ms ys)"
  shows "sorted (map item_ms (insert_cmp (\<lambda>a b. item_ms a - item_ms b) x ys))"
  using assms
proof (induction ys)
  case Nil
  show ?case by simp
next
  case (Cons y ys)
  show ?case
  proof (cases "item_ms x - item_ms y > 0")
    case True
    then have "item_ms y \<le> item_ms x" by simp
    moreover have "\<forall>z \<in> set ys. item_ms y \<le> item_ms z" using Cons.prems by auto
    ultimately have "\<forall>z \<in> set (insert_cmp (\<lambda>a b. item_ms a - item_ms b) x ys). item_ms y \<le> item_ms z"
      by (simp add: set_insert_cmp)
    moreover have "sorted (map item_ms (insert_cmp (\<lambda>a b. item_ms a - item_ms b) x ys))"
      using Cons by simp
    ultimately show ?thesis using True by simp
  next
    case False
    then have "item_ms x \<le> item_ms y" by simp
    then show ?thesis using False Cons.prems by auto
  qed
qed

lemma filter_insert_cmp:
  assumes "sorted (map item_ms ys)"
  shows "filter (\<lambda>e. item_ms e = v) (insert_cmp (\<lambda>a b. item_ms a - item_ms b) x ys)
     = (if item_ms x = v then x # filter (\<lambda>e. item_ms e = v) ys else filter (\<lambda>e. item_ms e = v) ys)"
  using assms
proof (induction ys)
  case Nil
  show ?case by simp
next
  case (Cons y ys)
  show ?case
  proof (cases "item_ms x - item_ms y > 0")
    case True
    then have ne: "item_ms y \<noteq> item_ms x" by simp
    have "sorted (map item_ms ys)" using Cons.prems by simp
    then show ?thesis using True ne Cons.IH by auto
  next
    case False
    then show ?thesis by simp
  qed
qed

lemma sorted_js_sort: "sorted (map item_ms (js_sort (\<lambda>a b. item_ms a - item_ms b) xs))"
  unfolding js_sort_def by (induction xs) (simp_all add: sorted_insert_cmp)

lemma mset_js_sort: "mset (js_sort cmp xs) = mset xs"
  unfolding js_sort_def by (induction xs) (simp_all add: mset_insert_cmp)

lemma stable_js_sort:
  "filter (\<lambda>e. item_ms e = v) (js_sort (\<lambda>a b. item_ms a - item_ms b) xs)
     = filter (\<lambda>e. item_ms e = v) xs"
proof (induction xs)
  case Nil
  show ?case by (simp add: js_sort_def)
next
  case (Cons x xs)
  have "js_sort (\<lambda>a b. item_ms a - item_ms b) (x # xs)
      = insert_cmp (\<lambda>a b. item_ms a - item_ms b) x (js_sort (\<lambda>a b. item_ms a - item_ms b) xs)"
    by (simp add: js_sort_def)
  then have "filter (\<lambda>e. item_ms e = v) (js_sort (\<lambda>a b. item_ms a - item_ms b) (x # xs))
      = (if item_ms x = v then x # filter (\<lambda>e. item_ms e = v) (js_sort (\<lambda>a b. item_ms a - item_ms b) xs)
         else filter (\<lambda>e. item_ms e = v) (js_sort (\<lambda>a b. item_ms a - item_ms b) xs))"
    using filter_insert_cmp[OF sorted_js_sort, of v x xs] by (simp only:)
  then show ?case unfolding Cons by simp
qed

text \<open>
  C9: the final list is sorted ascending by latency, has the entries of the list found
  during Stage B, and keeps entries of equal latency in the order in which they were
  found; the text and CSV outputs are rendered from the sorted list.
\<close>

theorem valid_sorted_stable:
  "sorted (map item_ms (res_valid (runSmartScan_finish toFixed3 valid0)))
   \<and> mset (res_valid (runSmartScan_finish toFixed3 valid0)) = mset valid0
   \<and> (\<forall>v. filter (\<lambda>e. item_ms e = v) (res_valid (runSmartScan_finish toFixed3 valid0))
          = filter (\<lambda>e. item_ms e = v) valid0)
   \<and> res_txt (runSmartScan_finish toFixed3 valid0)
        = join [char_of (10::nat)] (map item_ip (res_valid (runSmartScan_finish toFixed3 valid0)))
   \<and> res_csv (runSmartScan_finish toFixed3 valid0)
        = ''ip,ping_ms'' @ [char_of (10::nat)] @ join [char_of (10::nat)]
            (map (\<lambda>v. item_ip v @ '','' @ toFixed3 (item_ms v))
               (res_valid (runSmartScan_finish toFixed3 valid0)))"
  by (simp add: runSmartScan_finish_def Let_def sorted_js_sort mset_js_sort stable_js_sort)

text \<open>C9 on four entries with two ties.\<close>

theorem valid_sorted_stable_witness:
  "res_valid (runSmartScan_finish (\<lambda>x. ''t'')
      [\<lparr>item_ip = ''a'', item_ms = 5\<rparr>, \<lparr>item_ip = ''b'', item_ms = 3\<rparr>,
       \<lparr>item_ip = ''c'', item_ms = 5\<rparr>, \<lparr>item_ip = ''d'', item_ms = 3\<rparr>])
     = [\<lparr>item_ip = ''b'', item_ms = 3\<rparr>, \<lparr>item_ip = ''d'', item_ms = 3\<rparr>,
        \<lparr>item_ip = ''a'', item_ms = 5\<rparr>, \<lparr>item_ip = ''c'', item_ms = 5\<rparr>]
   \<and> sorted (map item_ms (res_valid (runSmartScan_finish (\<lambda>x. ''t'')
      [\<lparr>item_ip = ''a'', item_ms = 5\<rparr>, \<lparr>item_ip = ''b'', item_ms = 3\<rparr>,
       \<lparr>item_ip = ''c'', item_ms = 5\<rparr>, \<lparr>item_ip = ''d'', item_ms = 3\<rparr>])))"
  using valid_sorted_stable[of "\<lambda>x. ''t''"
      "[\<lparr>item_ip = ''a'', item_ms = 5\<rparr>, \<lparr>item_ip = ''b'', item_ms = 3\<rparr>,
        \<lparr>item_ip = ''c'', item_ms = 5\<rparr>, \<lparr>item_ip = ''d'', item_ms = 3\<rparr>]"]
  by (simp add: runSmartScan_finish_def js_sort_def)


section \<open>Properties of the bounded executor\<close>

lemma pump_Nil: "q s = [] \<Longrightarrow> pump limit s = s"
  by (subst pump.simps) simp

lemma pump_full: "\<not> active s < limit \<Longrightarrow> pump limit s = s"
  by (subst pump.simps) (simp split: list.splits)

lemma pump_start:
  "q s = job # rest \<Longrightarrow> active s < limit \<Longrightarrow>
     pump limit s = pump limit (s\<lparr>active := active s + 1, q := rest, running := running s @ [job]\<rparr>)"
  by (subst pump.simps) simp

lemma pump_keeps: "finishing (pump limit s) = finishing s \<and> settled (pump limit s) = settled s"
proof (induction limit s rule: pump.induct)
  case (1 limit s)
  show ?case
  proof (cases "q s")
    case Nil
    then show ?thesis by (simp add: pump_Nil)
  next
    case (Cons job rest)
    show ?thesis
    proof (cases "active s < limit")
      case True
      then show ?thesis using 1[OF Cons True] by (simp add: pump_start[OF Cons True])
    next
      case False
      then show ?thesis by (simp add: pump_full)
    qed
  qed
qed

lemma pump_conserves:
  "mset (q (pump limit s)) + mset (running (pump limit s)) = mset (q s) + mset (running s)"
proof (induction limit s rule: pump.induct)
  case (1 limit s)
  show ?case
  proof (cases "q s")
    case Nil
    then show ?thesis by (simp add: pump_Nil)
  next
    case (Cons job rest)
    show ?thesis
    proof (cases "active s < limit")
      case True
      then show ?thesis using 1[OF Cons True] Cons by (simp add: pump_start[OF Cons True])
    next
      case False
      then show ?thesis by (simp add: pump_full)
    qed
  qed
qed

lemma pump_invariant:
  assumes "active s = length (running s) + length (finishing s)" and "active s \<le> limit"
  shows "active (pump limit s) = length (running (pump limit s)) + length (finishing (pump limit s))
     \<and> active (pump limit s) \<le> limit
     \<and> (q (pump limit s) = [] \<or> active (pump limit s) = limit)"
  using assms
proof (induction limit s rule: pump.induct)
  case (1 limit s)
  show ?case
  proof (cases "q s")
    case Nil
    then show ?thesis using 1(2,3) by (simp add: pump_Nil)
  next
    case (Cons job rest)
    show ?thesis
    proof (cases "active s < limit")
      case True
      let ?t = "s\<lparr>active := active s + 1, q := rest, running := running s @ [job]\<rparr>"
      have a: "active ?t = length (running ?t) + length (finishing ?t)"
        using 1(2) by simp
      have b: "active ?t \<le> limit"
        using True by simp
      show ?thesis
        unfolding pump_start[OF Cons True] using Cons True a b by (rule 1(1))
    next
      case False
      then show ?thesis using 1(2,3) by (simp add: pump_full)
    qed
  qed
qed

lemma pump_lengths:
  "length (q (pump limit s)) + length (running (pump limit s)) = length (q s) + length (running s)"
proof -
  have "size (mset (q (pump limit s)) + mset (running (pump limit s)))
      = size (mset (q s) + mset (running s))"
    by (simp only: pump_conserves)
  then show ?thesis by simp
qed

lemma queue_inv_init: "queue_inv limit init_queue"
  by (simp add: queue_inv_def init_queue_def)

lemma queue_step_inv:
  assumes "queue_inv limit s" "queue_step limit ev s = Some s'"
  shows "queue_inv limit s'"
proof (cases ev)
  case (Submit job)
  have "active (s\<lparr>q := q s @ [job]\<rparr>)
      = length (running (s\<lparr>q := q s @ [job]\<rparr>)) + length (finishing (s\<lparr>q := q s @ [job]\<rparr>))"
    "active (s\<lparr>q := q s @ [job]\<rparr>) \<le> limit"
    using assms(1) by (simp_all add: queue_inv_def)
  then show ?thesis
    using assms(2) Submit pump_invariant[of "s\<lparr>q := q s @ [job]\<rparr>" limit]
    by (auto simp: queue_step_def queue_inv_def)
next
  case (Settles job res)
  then have j: "job \<in> set (running s)"
    and s': "s' = s\<lparr>running := remove1 job (running s), finishing := finishing s @ [job],
                   settled := settled s @ [(job, res)]\<rparr>"
    using assms(2) by (auto simp: queue_step_def split: if_splits)
  have "length (remove1 job (running s)) + 1 = length (running s)"
    using j by (simp add: length_remove1) (metis length_pos_if_in_set Suc_pred)
  then show ?thesis using assms(1) unfolding s' queue_inv_def by auto
next
  case (Finally job)
  then have j: "job \<in> set (finishing s)"
    and s': "s' = pump limit (s\<lparr>finishing := remove1 job (finishing s), active := active s - 1\<rparr>)"
    using assms(2) by (auto simp: queue_step_def split: if_splits)
  let ?t = "s\<lparr>finishing := remove1 job (finishing s), active := active s - 1\<rparr>"
  have l: "length (remove1 job (finishing s)) + 1 = length (finishing s)"
    using j by (simp add: length_remove1) (metis length_pos_if_in_set Suc_pred)
  have "active ?t = length (running ?t) + length (finishing ?t)" "active ?t \<le> limit"
    using assms(1) l by (auto simp: queue_inv_def)
  then show ?thesis
    unfolding s' queue_inv_def by (rule pump_invariant)
qed

lemma queue_run_inv:
  "queue_inv limit s \<Longrightarrow> queue_run limit evs s = Some s' \<Longrightarrow> queue_inv limit s'"
proof (induction evs arbitrary: s)
  case Nil
  then show ?case by simp
next
  case (Cons ev evs)
  then obtain t where t: "queue_step limit ev s = Some t" "queue_run limit evs t = Some s'"
    by (auto split: option.splits)
  then show ?case using Cons.IH queue_step_inv[OF Cons.prems(1) t(1)] by blast
qed

lemma queue_step_conserves:
  assumes "queue_step limit ev s = Some s'"
  shows "mset (q s') + mset (running s') + mset (map fst (settled s'))
     = mset (submitted [ev]) + (mset (q s) + mset (running s) + mset (map fst (settled s)))"
proof (cases ev)
  case (Submit job)
  then have s': "s' = pump limit (s\<lparr>q := q s @ [job]\<rparr>)"
    using assms by (simp add: queue_step_def)
  have "mset (q s') + mset (running s') = mset (q s @ [job]) + mset (running s)"
    unfolding s' using pump_conserves[of limit "s\<lparr>q := q s @ [job]\<rparr>"] by simp
  moreover have "settled s' = settled s" unfolding s' using pump_keeps[of limit "s\<lparr>q := q s @ [job]\<rparr>"] by simp
  ultimately show ?thesis using Submit by simp
next
  case (Settles job res)
  then have j: "job \<in> set (running s)"
    and s': "s' = s\<lparr>running := remove1 job (running s), finishing := finishing s @ [job],
                   settled := settled s @ [(job, res)]\<rparr>"
    using assms by (auto simp: queue_step_def split: if_splits)
  have "add_mset job (mset (remove1 job (running s))) = mset (running s)"
    using j by simp
  then show ?thesis unfolding s' using Settles by (simp add: union_mset_add_mset_right)
next
  case (Finally job)
  then have s': "s' = pump limit (s\<lparr>finishing := remove1 job (finishing s), active := active s - 1\<rparr>)"
    using assms by (auto simp: queue_step_def split: if_splits)
  let ?t = "s\<lparr>finishing := remove1 job (finishing s), active := active s - 1\<rparr>"
  have "mset (q s') + mset (running s') = mset (q s) + mset (running s)"
    unfolding s' using pump_conserves[of limit ?t] by simp
  moreover have "settled s' = settled s" unfolding s' using pump_keeps[of limit ?t] by simp
  ultimately show ?thesis using Finally by simp
qed

lemma submitted_Cons: "mset (submitted (ev # evs)) = mset (submitted [ev]) + mset (submitted evs)"
  by (cases ev) simp_all

lemma queue_run_conserves:
  "queue_run limit evs s = Some s' \<Longrightarrow>
     mset (q s') + mset (running s') + mset (map fst (settled s'))
       = mset (submitted evs) + (mset (q s) + mset (running s) + mset (map fst (settled s)))"
proof (induction evs arbitrary: s)
  case Nil
  then show ?case by simp
next
  case (Cons ev evs)
  then obtain t where t: "queue_step limit ev s = Some t" "queue_run limit evs t = Some s'"
    by (auto split: option.splits)
  show ?case
    unfolding Cons.IH[OF t(2)] queue_step_conserves[OF t(1)] submitted_Cons[of ev evs]
    by (simp add: ac_simps)
qed

lemma queue_step_callbacks:
  assumes "queue_step limit ev s = Some s'" "submitted [ev] = []"
  shows "callbacks_left s' + 1 = callbacks_left s"
proof (cases ev)
  case (Submit job)
  then show ?thesis using assms(2) by simp
next
  case (Settles job res)
  then have j: "job \<in> set (running s)"
    and s': "s' = s\<lparr>running := remove1 job (running s), finishing := finishing s @ [job],
                   settled := settled s @ [(job, res)]\<rparr>"
    using assms(1) by (auto simp: queue_step_def split: if_splits)
  have "length (remove1 job (running s)) + 1 = length (running s)"
    using j by (simp add: length_remove1) (metis length_pos_if_in_set Suc_pred)
  then show ?thesis unfolding s' callbacks_left_def by simp
next
  case (Finally job)
  then have j: "job \<in> set (finishing s)"
    and s': "s' = pump limit (s\<lparr>finishing := remove1 job (finishing s), active := active s - 1\<rparr>)"
    using assms(1) by (auto simp: queue_step_def split: if_splits)
  let ?t = "s\<lparr>finishing := remove1 job (finishing s), active := active s - 1\<rparr>"
  have l: "length (remove1 job (finishing s)) + 1 = length (finishing s)"
    using j by (simp add: length_remove1) (metis length_pos_if_in_set Suc_pred)
  have "length (q s') + length (running s') = length (q s) + length (running s)"
    unfolding s' using pump_lengths[of limit ?t] by simp
  moreover have "finishing s' = remove1 job (finishing s)"
    unfolding s' using pump_keeps[of limit ?t] by simp
  ultimately show ?thesis using l unfolding callbacks_left_def by simp
qed

lemma submitted_Cons_Nil: "submitted (ev # evs) = [] \<longleftrightarrow> submitted [ev] = [] \<and> submitted evs = []"
  by (cases ev) simp_all

lemma queue_run_callbacks:
  "queue_run limit cs s = Some s' \<Longrightarrow> submitted cs = [] \<Longrightarrow>
     callbacks_left s' + length cs = callbacks_left s"
proof (induction cs arbitrary: s)
  case Nil
  then show ?case by simp
next
  case (Cons ev cs)
  then obtain t where t: "queue_step limit ev s = Some t" "queue_run limit cs t = Some s'"
    by (auto split: option.splits)
  have e: "submitted [ev] = []" "submitted cs = []"
    using Cons.prems(2) submitted_Cons_Nil[of ev cs] by blast+
  show ?case
    using Cons.IH[OF t(2) e(2)] queue_step_callbacks[OF t(1) e(1)] by simp
qed

lemma queue_progress:
  assumes "1 \<le> limit" "queue_inv limit s" "0 < callbacks_left s"
  shows "\<exists>ev s'. submitted [ev] = [] \<and> queue_step limit ev s = Some s'"
proof (cases "running s")
  case (Cons job rest)
  then have "queue_step limit (Settles job True) s \<noteq> None" by (simp add: queue_step_def)
  then obtain s' where "queue_step limit (Settles job True) s = Some s'" by blast
  moreover have "submitted [Settles job True] = []" by simp
  ultimately show ?thesis by blast
next
  case Nil
  show ?thesis
  proof (cases "finishing s")
    case (Cons job rest)
    then have "queue_step limit (Finally job) s \<noteq> None" by (simp add: queue_step_def)
    then obtain s' where "queue_step limit (Finally job) s = Some s'" by blast
    moreover have "submitted [Finally job] = []" by simp
    ultimately show ?thesis by blast
  next
    case F: Nil
    with Nil assms(2) have "active s = 0" "q s = [] \<or> active s = limit"
      by (auto simp: queue_inv_def)
    with assms(1) have "q s = []" by auto
    with Nil F assms(3) show ?thesis by (simp add: callbacks_left_def)
  qed
qed

text \<open>
  C6: after any sequence of events of an executor with limit at least 1, at most \<open>limit\<close>
  jobs are running, a job waits in the queue only while the executor is full, and every
  submitted job is queued, running or settled. Settling a job, by resolve or by reject
  alike, and its \<open>finally\<close> each take one callback off \<open>callbacks_left\<close>; while callbacks
  are left one of them can happen; when none is left every submitted job is settled.
\<close>

theorem bounded_executor:
  assumes "1 \<le> limit" and "queue_run limit evs init_queue = Some s"
  shows "length (running s) \<le> limit
     \<and> (q s = [] \<or> length (running s) + length (finishing s) = limit)
     \<and> mset (submitted evs) = mset (q s) + mset (running s) + mset (map fst (settled s))
     \<and> (0 < callbacks_left s \<longrightarrow> (\<exists>ev s'. submitted [ev] = [] \<and> queue_step limit ev s = Some s'))
     \<and> (\<forall>cs s'. submitted cs = [] \<and> queue_run limit cs s = Some s'
           \<longrightarrow> callbacks_left s' + length cs = callbacks_left s)
     \<and> (callbacks_left s = 0 \<longrightarrow> mset (submitted evs) = mset (map fst (settled s)))"
proof -
  have inv: "queue_inv limit s"
    using queue_inv_init assms(2) by (rule queue_run_inv)
  have 1: "length (running s) \<le> limit" using inv by (simp add: queue_inv_def)
  have 2: "q s = [] \<or> length (running s) + length (finishing s) = limit"
    using inv by (auto simp: queue_inv_def)
  have 3: "mset (submitted evs) = mset (q s) + mset (running s) + mset (map fst (settled s))"
    using queue_run_conserves[OF assms(2)] by (simp add: init_queue_def)
  have 4: "0 < callbacks_left s \<longrightarrow> (\<exists>ev s'. submitted [ev] = [] \<and> queue_step limit ev s = Some s')"
    using queue_progress[OF assms(1) inv] by blast
  have 5: "\<forall>cs s'. submitted cs = [] \<and> queue_run limit cs s = Some s'
           \<longrightarrow> callbacks_left s' + length cs = callbacks_left s"
    using queue_run_callbacks by blast
  have 6: "callbacks_left s = 0 \<longrightarrow> mset (submitted evs) = mset (map fst (settled s))"
    using 3 by (simp add: callbacks_left_def)
  from 1 2 3 4 5 6 show ?thesis by (intro conjI)
qed

text \<open>C6 with limit 2 and three jobs, the first of which rejects.\<close>

theorem bounded_executor_witness:
  "(1::nat) \<le> 2 \<and>
   queue_run 2 [Submit 1, Submit 2, Submit 3, Settles 1 False, Finally 1] init_queue
     = Some \<lparr>active = 2, q = [], running = [2, 3], finishing = [], settled = [(1, False)]\<rparr> \<and>
   length [2, 3 :: nat] \<le> 2 \<and>
   submitted [Settles 2 True, Finally 2, Settles 3 False, Finally 3] = [] \<and>
   queue_run 2 [Settles 2 True, Finally 2, Settles 3 False, Finally 3]
       \<lparr>active = 2, q = [], running = [2, 3], finishing = [], settled = [(1, False)]\<rparr>
     = Some \<lparr>active = 0, q = [], running = [], finishing = [],
             settled = [(1, False), (2, True), (3, False)]\<rparr> \<and>
   callbacks_left \<lparr>active = 0, q = [], running = [], finishing = [],
             settled = [(1, False), (2, True), (3, False)]\<rparr> + 4
     = callbacks_left \<lparr>active = 2, q = [], running = [2, 3], finishing = [], settled = [(1, False)]\<rparr>"
proof -
  let ?s0 = "\<lparr>active = 2, q = [], running = [2, 3], finishing = [], settled = [(1, False)]\<rparr>"
  let ?s1 = "\<lparr>active = 0, q = [], running = [], finishing = [],
             settled = [(1, False), (2, True), (3, False)]\<rparr>"
  let ?cs = "[Settles 2 True, Finally 2, Settles 3 False, Finally 3]"
  have l: "(1::nat) \<le> 2" by simp
  have r0: "queue_run 2 [Submit 1, Submit 2, Submit 3, Settles 1 False, Finally 1] init_queue = Some ?s0"
    by code_simp
  have r1: "queue_run 2 ?cs ?s0 = Some ?s1" by code_simp
  have c: "submitted ?cs = []" by simp
  note t = bounded_executor[OF l r0]
  from t have "length (running ?s0) \<le> 2" by blast
  moreover from t c r1 have "callbacks_left ?s1 + length ?cs = callbacks_left ?s0" by blast
  ultimately show ?thesis using l r0 r1 c by simp
qed


end
